theory Spec2Isabelle
  imports Complex_Main "HOL-Library.Multiset"
begin

section \<open>The transport client: \<open>trustable_cli/grimoirelab_client.py\<close>\<close>

subsection \<open>Data\<close>

text \<open>
  A response carries its HTTP status and what \<open>json()\<close> gives for its body. Only the
  keys \<open>access\<close> and \<open>refresh\<close> of a JSON object are ever read by the client, so a JSON
  body is the pair of what \<open>data.get("access")\<close> and \<open>data.get("refresh")\<close> return
  (\<open>None\<close> for an absent key); a body that is no JSON makes \<open>json()\<close> raise.
\<close>

datatype body = NotJson | Json "string option" "string option"

record response =
  status_code :: nat
  content :: body

text \<open>The exceptions that can leave the client's methods.\<close>

datatype exn =
    ValueError string
  | HTTPError response
  | ConnectionError string
  | Timeout string
  | OtherRequestError string
  | JSONDecodeError
  | AttributeError
  | RecursionError

text \<open>
  What \<open>session.request\<close> does with one request: it returns the server's response or
  raises. \<open>ConnFails\<close> and \<open>TimesOut\<close> are \<open>requests.ConnectionError\<close> and
  \<open>requests.Timeout\<close>, each with its message, so that two such errors can be told
  apart; \<open>OtherFails\<close> is any other exception of the library.
\<close>

datatype outcome =
    Answers response
  | ConnFails string
  | TimesOut string
  | OtherFails string

text \<open>
  The network is the sequence of outcomes of the requests in the order they are sent:
  the request sent while \<open>sent\<close> earlier ones have been made gets \<open>net sent\<close>.
  Everything the client does to the outside is appended to a trace.
\<close>

type_synonym network = "nat \<Rightarrow> outcome"

text \<open>A request body: the JSON object passed as \<open>json=\<close>, if any.\<close>

type_synonym payload = "(string \<times> string option) list option"

datatype effect =
    Request string string payload "string option"
      \<comment> \<open>method, url, json payload, the session's Authorization header\<close>
  | NewSession
  | Sleep nat

record world =
  sent :: nat
  trace :: "effect list"

text \<open>
  A \<open>requests.Session\<close> is modelled by the one header the client ever sets on it.
\<close>

record session =
  authorization :: "string option"

record client =
  url :: string
  user :: "string option"
  password :: "string option"
  session :: "session option"
  token :: "string option"
  refresh_token :: "string option"

definition MAX_RETRIES :: nat where
  "MAX_RETRIES = 5"

subsection \<open>Python's conventions\<close>

text \<open>Truthiness of an optional string: \<open>None\<close> and the empty string are false.\<close>

fun truthy :: "string option \<Rightarrow> bool" where
  "truthy None = False"
| "truthy (Some s) = (s \<noteq> [])"

text \<open>\<open>f"Bearer {self._token}"\<close>: the value \<open>None\<close> is formatted as the text None.\<close>

fun bearer :: "string option \<Rightarrow> string" where
  "bearer None = ''Bearer None''"
| "bearer (Some t) = ''Bearer '' @ t"

text \<open>\<open>Response.raise_for_status\<close> raises for the statuses 400 to 599.\<close>

definition is_error_status :: "nat \<Rightarrow> bool" where
  "is_error_status s \<longleftrightarrow> 400 \<le> s \<and> s < 600"

definition new_Session :: session where
  "new_Session = \<lparr>authorization = None\<rparr>"

definition GrimoireLabClient :: "string \<Rightarrow> string option \<Rightarrow> string option \<Rightarrow> client" where
  "GrimoireLabClient u usr pw =
     \<lparr>url = u, user = usr, password = pw, session = None, token = None,
      refresh_token = None\<rparr>"

subsection \<open>Operations\<close>

text \<open>\<open>_reconnect\<close>: a new session, with the current token as bearer if there is one.\<close>

definition reconnect :: "client \<Rightarrow> world \<Rightarrow> client \<times> world" where
  "reconnect c w =
     (let s = new_Session;
          w1 = w\<lparr>trace := trace w @ [NewSession]\<rparr>;
          s1 = (if truthy (token c) then s\<lparr>authorization := Some (bearer (token c))\<rparr> else s)
      in (c\<lparr>session := Some s1\<rparr>, w1))"

text \<open>\<open>session.request(method, url, json=...)\<close> with the headers of the session.\<close>

definition session_request ::
  "network \<Rightarrow> session \<Rightarrow> string \<Rightarrow> string \<Rightarrow> payload \<Rightarrow> world \<Rightarrow> outcome \<times> world" where
  "session_request net s meth u js w =
     (net (sent w),
      w\<lparr>sent := Suc (sent w), trace := trace w @ [Request meth u js (authorization s)]\<rparr>)"

text \<open>
  \<open>_make_request\<close> and \<open>_refresh_auth_token\<close> call each other: a 403 answer to the
  refresh request itself starts another refresh. The loop of \<open>_make_request\<close> is
  therefore written over the refresh operation it calls, and the two are tied together
  below by the depth of nested refreshes.

  The loop over \<open>range(MAX_RETRIES)\<close> is a recursion over the list of the attempts
  left. A session that the loop finds missing cannot occur, since the loop is entered
  with one and never removes it; that branch raises what a method call on \<open>None\<close>
  raises. The result is \<open>Inl\<close> of the exception raised, or \<open>Inr\<close> of the value
  returned, where \<open>None\<close> is Python's \<open>None\<close> (falling off the end of the function).
\<close>

type_synonym 'a result = "(exn + 'a) \<times> client \<times> world"

text \<open>The handler of \<open>requests.HTTPError\<close>.\<close>

definition on_http_error ::
  "(client \<Rightarrow> world \<Rightarrow> unit result) \<Rightarrow> response \<Rightarrow> client \<Rightarrow> world \<Rightarrow> response option result" where
  "on_http_error refresh r c w =
     (if status_code r = 403 \<and> truthy (refresh_token c) then
        (case refresh c w of
           (Inl e, c2, w2) \<Rightarrow> (Inl e, c2, w2)
         | (Inr _, c2, w2) \<Rightarrow> (Inr (Some r), c2, w2))
      else (Inr (Some r), c, w))"

text \<open>
  The handler of \<open>requests.ConnectionError\<close> and \<open>requests.Timeout\<close>, followed by
  the sleep at the end of the loop body.
\<close>

definition on_transport_error :: "nat \<Rightarrow> client \<Rightarrow> world \<Rightarrow> client \<times> world" where
  "on_transport_error attempt c w =
     (case reconnect c w of
        (c2, w2) \<Rightarrow> (c2, w2\<lparr>trace := trace w2 @ [Sleep (2 ^ attempt)]\<rparr>))"

fun attempts ::
  "(client \<Rightarrow> world \<Rightarrow> unit result) \<Rightarrow> network \<Rightarrow> string \<Rightarrow> string \<Rightarrow> payload \<Rightarrow>
   exn option \<Rightarrow> nat list \<Rightarrow> client \<Rightarrow> world \<Rightarrow> response option result" where
  "attempts refresh net meth u js last_exception [] c w =
     (case last_exception of
        Some e \<Rightarrow> (Inl e, c, w)
      | None \<Rightarrow> (Inr None, c, w))"
| "attempts refresh net meth u js last_exception (attempt # rest) c w =
     (case session c of
        None \<Rightarrow> (Inl AttributeError, c, w)
      | Some s \<Rightarrow>
         (case session_request net s meth u js w of
            (Answers r, w1) \<Rightarrow>
              if is_error_status (status_code r) then on_http_error refresh r c w1
              else (Inr (Some r), c, w1)
          | (ConnFails m, w1) \<Rightarrow>
              (case on_transport_error attempt c w1 of
                 (c2, w2) \<Rightarrow>
                   attempts refresh net meth u js (Some (ConnectionError m)) rest c2 w2)
          | (TimesOut m, w1) \<Rightarrow>
              (case on_transport_error attempt c w1 of
                 (c2, w2) \<Rightarrow>
                   attempts refresh net meth u js (Some (Timeout m)) rest c2 w2)
          | (OtherFails m, w1) \<Rightarrow> (Inl (OtherRequestError m), c, w1)))"

definition make_request_with ::
  "(client \<Rightarrow> world \<Rightarrow> unit result) \<Rightarrow> network \<Rightarrow> string \<Rightarrow> string \<Rightarrow> payload \<Rightarrow>
   client \<Rightarrow> world \<Rightarrow> response option result" where
  "make_request_with refresh net meth uri js c w =
     (if session c = None
      then (Inl (ValueError ''Session not connected. Call connect() first.''), c, w)
      else attempts refresh net meth (url c @ ''/'' @ uri) js None [0..<MAX_RETRIES] c w)"

text \<open>
  The body of \<open>_refresh_auth_token\<close> after its \<open>self.post\<close> has returned:
  \<open>raise_for_status\<close>, \<open>json\<close>, the new token and the header.
\<close>

definition refresh_with_response :: "response option result \<Rightarrow> unit result" where
  "refresh_with_response res =
     (case res of
        (Inl e, c1, w1) \<Rightarrow> (Inl e, c1, w1)
      | (Inr None, c1, w1) \<Rightarrow> (Inl AttributeError, c1, w1)
      | (Inr (Some r), c1, w1) \<Rightarrow>
          if is_error_status (status_code r) then (Inl (HTTPError r), c1, w1)
          else
            (case content r of
               NotJson \<Rightarrow> (Inl JSONDecodeError, c1, w1)
             | Json access refresh \<Rightarrow>
                 (case session c1 of
                    None \<Rightarrow> (Inl AttributeError, c1\<lparr>token := access\<rparr>, w1)
                  | Some s \<Rightarrow>
                      (Inr (),
                       c1\<lparr>token := access,
                          session := Some (s\<lparr>authorization := Some (bearer access)\<rparr>)\<rparr>,
                       w1))))"

text \<open>
  \<open>_refresh_auth_token\<close>, with the depth of nested refreshes it may still start: a
  refresh that would go deeper raises \<open>RecursionError\<close>, as Python does when its stack
  is exhausted.
\<close>

fun refresh_auth_token :: "nat \<Rightarrow> network \<Rightarrow> client \<Rightarrow> world \<Rightarrow> unit result" where
  "refresh_auth_token 0 net c w = (Inl RecursionError, c, w)"
| "refresh_auth_token (Suc d) net c w =
     refresh_with_response
       (make_request_with (refresh_auth_token d net) net ''post'' ''token/refresh/''
          (Some [(''refresh'', refresh_token c)]) c w)"

text \<open>\<open>_make_request\<close>, \<open>get\<close> and \<open>post\<close>, allowing \<open>d\<close> nested refreshes.\<close>

definition make_request ::
  "nat \<Rightarrow> network \<Rightarrow> string \<Rightarrow> string \<Rightarrow> payload \<Rightarrow> client \<Rightarrow> world \<Rightarrow> response option result" where
  "make_request d net meth uri js c w =
     make_request_with (refresh_auth_token d net) net meth uri js c w"

definition get :: "nat \<Rightarrow> network \<Rightarrow> string \<Rightarrow> payload \<Rightarrow> client \<Rightarrow> world \<Rightarrow> response option result" where
  "get d net uri js c w = make_request d net ''get'' uri js c w"

definition post :: "nat \<Rightarrow> network \<Rightarrow> string \<Rightarrow> payload \<Rightarrow> client \<Rightarrow> world \<Rightarrow> response option result" where
  "post d net uri js c w = make_request d net ''post'' uri js c w"

text \<open>\<open>connect\<close>: a new session and, with credentials, a token request.\<close>

definition connect :: "nat \<Rightarrow> network \<Rightarrow> client \<Rightarrow> world \<Rightarrow> unit result" where
  "connect d net c w =
     (let c0 = c\<lparr>session := Some new_Session\<rparr>;
          w0 = w\<lparr>trace := trace w @ [NewSession]\<rparr>
      in if \<not> (truthy (user c) \<and> truthy (password c)) then (Inr (), c0, w0)
         else
           (case post d net ''token/''
                   (Some [(''username'', user c), (''password'', password c)]) c0 w0 of
              (Inl e, c1, w1) \<Rightarrow> (Inl e, c1, w1)
            | (Inr None, c1, w1) \<Rightarrow> (Inl AttributeError, c1, w1)
            | (Inr (Some r), c1, w1) \<Rightarrow>
                if is_error_status (status_code r) then (Inl (HTTPError r), c1, w1)
                else
                  (case content r of
                     NotJson \<Rightarrow> (Inl JSONDecodeError, c1, w1)
                   | Json access refresh \<Rightarrow>
                       (case session c1 of
                          None \<Rightarrow>
                            (Inl AttributeError,
                             c1\<lparr>token := access, refresh_token := refresh\<rparr>, w1)
                        | Some s \<Rightarrow>
                            (Inr (),
                             c1\<lparr>token := access, refresh_token := refresh,
                                session := Some (s\<lparr>authorization := Some (bearer access)\<rparr>)\<rparr>,
                             w1)))))"

subsection \<open>What the statements about the client speak of\<close>

text \<open>The exception that a failed request raises, if it is one the loop retries.\<close>

definition transport_error :: "outcome \<Rightarrow> exn option" where
  "transport_error out =
     (case out of
        ConnFails m \<Rightarrow> Some (ConnectionError m)
      | TimesOut m \<Rightarrow> Some (Timeout m)
      | _ \<Rightarrow> None)"

text \<open>The Authorization header of the session that \<open>_reconnect\<close> creates.\<close>

definition reconnect_header :: "client \<Rightarrow> string option" where
  "reconnect_header c = (if truthy (token c) then Some (bearer (token c)) else None)"

text \<open>
  The trace of a run of failed attempts: each sends the request, opens a new session and
  sleeps. The first request carries the header \<open>h0\<close> of the session the loop started
  with, the later ones the header \<open>h\<close> of the reconnected session.
\<close>

fun retry_log ::
  "string \<Rightarrow> string \<Rightarrow> payload \<Rightarrow> string option \<Rightarrow> string option \<Rightarrow> nat list \<Rightarrow> effect list" where
  "retry_log meth u js h0 h [] = []"
| "retry_log meth u js h0 h (a # as) =
     [Request meth u js h0, NewSession, Sleep (2 ^ a)] @ retry_log meth u js h h as"

text \<open>The delays, the requests and the Authorization headers of the requests of a trace.\<close>

fun sleeps :: "effect list \<Rightarrow> nat list" where
  "sleeps [] = []"
| "sleeps (Sleep n # es) = n # sleeps es"
| "sleeps (e # es) = sleeps es"

fun requests :: "effect list \<Rightarrow> effect list" where
  "requests [] = []"
| "requests (Request m u p h # es) = Request m u p h # requests es"
| "requests (e # es) = requests es"

fun request_headers :: "effect list \<Rightarrow> string option list" where
  "request_headers [] = []"
| "request_headers (Request m u p h # es) = h # request_headers es"
| "request_headers (e # es) = request_headers es"

text \<open>
  A client that holds no token and whose session has no Authorization header.
\<close>

definition unauthenticated :: "client \<Rightarrow> bool" where
  "unauthenticated c \<longleftrightarrow>
     token c = None \<and> refresh_token c = None \<and>
     (case session c of None \<Rightarrow> False | Some s \<Rightarrow> authorization s = None)"

text \<open>
  The clients that a program can hold: one made by the constructor, and what \<open>connect\<close>
  and the requests make of it, whatever the network does and whether they return or
  raise.
\<close>

inductive reachable :: "client \<Rightarrow> bool" where
  constructed: "reachable (GrimoireLabClient u usr pw)"
| connected: "reachable c \<Longrightarrow> connect d net c w = (res, c', w') \<Longrightarrow> reachable c'"
| requested: "reachable c \<Longrightarrow> make_request d net meth uri js c w = (res', c', w') \<Longrightarrow> reachable c'"

text \<open>Two states of a client with the same user and password.\<close>

definition same_credentials :: "client \<Rightarrow> client \<Rightarrow> bool" where
  "same_credentials c c' \<longleftrightarrow> user c' = user c \<and> password c' = password c"

text \<open>Concrete inputs: a world in which nothing has happened, a connected client
  holding a refresh token, and two networks.\<close>

definition world0 :: world where
  "world0 = \<lparr>sent = 0, trace = []\<rparr>"

definition connected_client :: client where
  "connected_client =
     \<lparr>url = ''https://example.org/api'', user = Some ''user'', password = Some ''secret'',
      session = Some \<lparr>authorization = Some ''Bearer old''\<rparr>,
      token = Some ''old'', refresh_token = Some ''again''\<rparr>"

definition resp :: "nat \<Rightarrow> body \<Rightarrow> response" where
  "resp st b = \<lparr>status_code = st, content = b\<rparr>"

text \<open>The token has expired: 403, then the refresh succeeds, then every request does.\<close>

definition expired_then_fine :: network where
  "expired_then_fine n =
     (if n = 0 then Answers (resp 403 NotJson)
      else if n = 1 then Answers (resp 200 (Json (Some ''new'') None))
      else Answers (resp 200 (Json None None)))"


text \<open>The connection fails twice, then the server answers.\<close>

definition down_twice :: network where
  "down_twice n =
     (if n = 0 then ConnFails ''reset''
      else if n = 1 then TimesOut ''read timed out''
      else Answers (resp 200 (Json None None)))"

text \<open>The connection fails every time; the failures are numbered by their messages.\<close>

definition always_down :: network where
  "always_down n =
     (if n = 0 then ConnFails ''first'' else if n = 1 then ConnFails ''second''
      else if n = 2 then TimesOut ''third'' else if n = 3 then ConnFails ''fourth''
      else TimesOut ''fifth'')"

section \<open>The statistics engine: \<open>trustable_cli/metrics.py\<close>\<close>

text \<open>
  The module \<open>trustable_cli/metrics.py\<close> with the class \<open>GitEventsAnalyzer\<close> is not
  among the sources; only its tests are (\<open>tests/unit/test_metrics.py\<close>), and the fixture
  \<open>data/events.json\<close> they read is absent as well. Every definition of this section is
  written from the specification; the names of the operations are those the tests call.
\<close>

subsection \<open>Events\<close>

text \<open>Modelled from the spec: the file-change entry \<open>{path, added, removed}\<close> of an
  event payload (section 6), whose type \<open>metrics.py\<close> would declare.\<close>

record file_change =
  path :: string
  added :: nat
  removed :: nat

text \<open>Modelled from the spec: the payload \<open>data\<close> of an event envelope (section 6);
  an absent \<open>files\<close> entry is the empty list.\<close>

record event_data =
  Author :: string
  message :: string
  files :: "file_change list"

text \<open>Modelled from the spec: the event envelope (section 6) that the absent
  \<open>process_events\<close> consumes.\<close>

record event =
  event_type :: string
  data :: event_data

text \<open>Modelled from the spec: the commit-event tag of the absent module; its value is
  the one the events of the tests carry.\<close>

definition COMMIT_EVENT_TYPE :: string where
  "COMMIT_EVENT_TYPE = ''org.grimoirelab.events.git.commit''"

text \<open>Modelled from the spec: the two file categories of the absent classifier
  (section 3, FileChange).\<close>

datatype category = Code | Other

text \<open>Modelled from the spec: the extension of a path, which the absent classifier
  looks up: the text after the last dot, if there is a dot.\<close>

definition extension :: "string \<Rightarrow> string option" where
  "extension p =
     (if CHR ''.'' \<in> set p then Some (rev (takeWhile (\<lambda>ch. ch \<noteq> CHR ''.'') (rev p)))
      else None)"

text \<open>Modelled from the spec: the absent classifier (section 4.1): \<open>Code\<close> for an
  extension on the allowlist, \<open>Other\<close> for an unknown or missing extension. The
  allowlist itself is not given by the spec and is a parameter.\<close>

definition classify :: "string list \<Rightarrow> string \<Rightarrow> category" where
  "classify allowlist p =
     (case extension p of
        None \<Rightarrow> Other
      | Some e \<Rightarrow> if e \<in> set allowlist then Code else Other)"

text \<open>Modelled from the spec: lower-casing of the organization (section 3), as the
  absent parser does it, on the ASCII letters.\<close>

definition lower :: "char \<Rightarrow> char" where
  "lower ch =
     (case map_of (zip ''ABCDEFGHIJKLMNOPQRSTUVWXYZ'' ''abcdefghijklmnopqrstuvwxyz'') ch of
        None \<Rightarrow> ch
      | Some l \<Rightarrow> l)"

text \<open>Modelled from the spec: the absent parser of the author field
  \<open>name <email>\<close> (section 4.1). The e-mail is the text between the first \<open><\<close> and a
  closing \<open>>\<close> at the end; the organization is the lower-cased domain
  after the first \<open>@\<close>. A field without the brackets or without \<open>@\<close> is a validation
  error, \<open>None\<close>.\<close>

definition email_of :: "string \<Rightarrow> string option" where
  "email_of author =
     (if CHR ''<'' \<in> set author \<and> last author = CHR ''>''
      then Some (butlast (tl (dropWhile (\<lambda>ch. ch \<noteq> CHR ''<'') author)))
      else None)"

text \<open>Modelled from the spec: the organization of an e-mail address in the absent
  parser (section 3): the domain portion, lower-cased; \<open>None\<close> without \<open>@\<close>.\<close>

definition organization_of :: "string \<Rightarrow> string option" where
  "organization_of email =
     (if CHR ''@'' \<in> set email
      then Some (map lower (tl (dropWhile (\<lambda>ch. ch \<noteq> CHR ''@'') email)))
      else None)"

text \<open>Modelled from the spec: the absent normalisation of an author field into the
  contributor identity, which is the literal author string, and the organization.\<close>

definition parse_author :: "string \<Rightarrow> (string \<times> string) option" where
  "parse_author author =
     (case email_of author of
        None \<Rightarrow> None
      | Some email \<Rightarrow>
          (case organization_of email of
             None \<Rightarrow> None
           | Some org \<Rightarrow> Some (author, org)))"

subsection \<open>The ledgers and the state\<close>

text \<open>Modelled from the spec: a ledger of the absent ContributorLedger (section 4.2):
  keys with their running counts, in first-seen order.\<close>

type_synonym 'k ledger = "('k \<times> nat) list"

text \<open>Modelled from the spec: the counter increment of the absent
  \<open>record(identity, organization)\<close> (section 4.2): add one to the count of a key,
  creating the entry, at the end, on first sight.\<close>

fun increment :: "'k \<Rightarrow> 'k ledger \<Rightarrow> 'k ledger" where
  "increment k [] = [(k, 1)]"
| "increment k ((k', n) # rest) =
     (if k = k' then (k', Suc n) # rest else (k', n) # increment k rest)"

text \<open>Modelled from the spec: the absent \<open>ranked_by_count\<close> (section 4.2): the entries
  sorted by descending count by a stable sort, so that ties keep first-seen order.\<close>

definition ranked_by_count :: "'k ledger \<Rightarrow> 'k ledger" where
  "ranked_by_count l = sort_key (\<lambda>entry. - int (snd entry)) l"

text \<open>Modelled from the spec: the absent \<open>distinct_count\<close> (section 4.2): the number
  of keys.\<close>

definition distinct_count :: "'k ledger \<Rightarrow> nat" where
  "distinct_count l = length l"

text \<open>Modelled from the spec: the state of the absent \<open>GitEventsAnalyzer\<close>: the two
  ledgers and the AnalyzerState of section 3.\<close>

record analyzer =
  total_commits :: nat
  contributors :: "string ledger"
  organizations :: "string ledger"
  file_types :: "category ledger"
  added_lines :: nat
  removed_lines :: nat
  message_sizes :: "nat list"

text \<open>Modelled from the spec: the absent constructor: everything empty (section 3,
  lifecycle).\<close>

definition GitEventsAnalyzer :: analyzer where
  "GitEventsAnalyzer =
     \<lparr>total_commits = 0, contributors = [], organizations = [], file_types = [],
      added_lines = 0, removed_lines = 0, message_sizes = []\<rparr>"

subsection \<open>Ingestion\<close>

text \<open>Modelled from the spec: the absent accumulation of one file change (section
  4.1): its category is counted and its line counts are added to the totals.\<close>

definition process_file :: "string list \<Rightarrow> analyzer \<Rightarrow> file_change \<Rightarrow> analyzer" where
  "process_file allowlist st f =
     st\<lparr>file_types := increment (classify allowlist (path f)) (file_types st),
        added_lines := added_lines st + added f,
        removed_lines := removed_lines st + removed f\<rparr>"

text \<open>Modelled from the spec: the absent ingestion of one envelope (section 4.1): an
  envelope of another type is ignored, one whose author field is malformed is skipped,
  and an accepted one is recorded in both ledgers and in the totals. The length of a
  message is the length of the model's string, one per character of an ASCII text.\<close>

definition process_event :: "string list \<Rightarrow> analyzer \<Rightarrow> event \<Rightarrow> analyzer" where
  "process_event allowlist st ev =
     (if event_type ev \<noteq> COMMIT_EVENT_TYPE then st
      else
        (case parse_author (Author (data ev)) of
           None \<Rightarrow> st
         | Some (identity, organization) \<Rightarrow>
             foldl (process_file allowlist)
               (st\<lparr>total_commits := Suc (total_commits st),
                   contributors := increment identity (contributors st),
                   organizations := increment organization (organizations st),
                   message_sizes := message_sizes st @ [length (message (data ev))]\<rparr>)
               (files (data ev))))"

text \<open>Modelled from the spec: the absent \<open>process_events\<close>: the envelopes of a batch
  one after the other, merged into the state that is there (section 3, lifecycle).\<close>

definition process_events :: "string list \<Rightarrow> event list \<Rightarrow> analyzer \<Rightarrow> analyzer" where
  "process_events allowlist events st = foldl (process_event allowlist) st events"

subsection \<open>Queries\<close>

text \<open>Modelled from the spec: the absent \<open>get_commit_count\<close> (section 4.3,
  \<open>commit_count\<close>).\<close>

definition get_commit_count :: "analyzer \<Rightarrow> nat" where
  "get_commit_count st = total_commits st"

text \<open>Modelled from the spec: the absent \<open>get_contributor_count\<close> (section 4.3,
  \<open>contributor_count\<close>).\<close>

definition get_contributor_count :: "analyzer \<Rightarrow> nat" where
  "get_contributor_count st = distinct_count (contributors st)"

text \<open>Modelled from the spec: the target of the absent pony factor computation,
  half of the total rounded up.\<close>

definition half_up :: "nat \<Rightarrow> nat" where
  "half_up n = (n + 1) div 2"

text \<open>Modelled from the spec: the walk of the absent pony factor computation down the
  ranked counts: contributors are counted until the running sum reaches the target.\<close>

fun count_until :: "nat \<Rightarrow> nat \<Rightarrow> nat list \<Rightarrow> nat" where
  "count_until target acc [] = 0"
| "count_until target acc (n # ns) =
     (if target \<le> acc + n then 1 else Suc (count_until target (acc + n) ns))"

text \<open>Modelled from the spec: the algorithm that the absent \<open>get_pony_factor\<close> and
  \<open>get_elephant_factor\<close> share (section 4.3), with the check for the empty state
  first.\<close>

definition diversity_factor :: "'k ledger \<Rightarrow> nat \<Rightarrow> nat" where
  "diversity_factor l commits =
     (if commits = 0 then 0
      else count_until (half_up commits) 0 (map snd (ranked_by_count l)))"

text \<open>Modelled from the spec: the absent \<open>get_pony_factor\<close> (section 4.3,
  \<open>pony_factor\<close>).\<close>

definition get_pony_factor :: "analyzer \<Rightarrow> nat" where
  "get_pony_factor st = diversity_factor (contributors st) (total_commits st)"

text \<open>Modelled from the spec: the absent \<open>get_elephant_factor\<close> (section 4.3,
  \<open>elephant_factor\<close>): the same on the organization ledger.\<close>

definition get_elephant_factor :: "analyzer \<Rightarrow> nat" where
  "get_elephant_factor st = diversity_factor (organizations st) (total_commits st)"

text \<open>Modelled from the spec: the absent \<open>get_file_type_metrics\<close> (section 4.3): the
  mapping from category to count, empty when no commit has been processed.\<close>

definition get_file_type_metrics :: "analyzer \<Rightarrow> category ledger" where
  "get_file_type_metrics st = (if total_commits st = 0 then [] else file_types st)"

text \<open>Modelled from the spec: the result \<open>{added_lines, removed_lines}\<close> of the absent
  \<open>get_commit_size_metrics\<close>.\<close>

record commit_size =
  size_added_lines :: nat
  size_removed_lines :: nat

text \<open>Modelled from the spec: the absent \<open>get_commit_size_metrics\<close> (section 4.3):
  both totals, 0 when no commit has been processed.\<close>

definition get_commit_size_metrics :: "analyzer \<Rightarrow> commit_size" where
  "get_commit_size_metrics st =
     (if total_commits st = 0 then \<lparr>size_added_lines = 0, size_removed_lines = 0\<rparr>
      else \<lparr>size_added_lines = added_lines st, size_removed_lines = removed_lines st\<rparr>)"

text \<open>Modelled from the spec: the error of the absent \<open>get_average_commits_week\<close> for
  a window of zero days.\<close>

datatype arithmetic_error = ZeroDivisionError

text \<open>Modelled from the spec: the absent \<open>get_average_commits_week\<close> (section 4.3):
  \<open>commit_count / days_interval / 7\<close>, with no guard, so that a zero window is
  Python's division by zero. The quotient is exact; the rounding of Python's floats is
  not modelled.\<close>

definition get_average_commits_week :: "analyzer \<Rightarrow> int \<Rightarrow> arithmetic_error + rat" where
  "get_average_commits_week st days_interval =
     (if days_interval = 0 then Inl ZeroDivisionError
      else Inr (of_nat (total_commits st) / of_int days_interval / 7))"

text \<open>Modelled from the spec: the three tiers of the absent
  \<open>get_developer_categories\<close>.\<close>

datatype tier = Core | Regular | Casual

text \<open>Modelled from the spec: the thresholds of the absent
  \<open>get_developer_categories\<close> (section 4.3) on the cumulative share after including a
  contributor: at most 0.80 is core, at most 0.95 regular, the rest casual. Shares are
  exact quotients; the rounding of floating point numbers is not modelled.\<close>

definition tier_of :: "rat \<Rightarrow> tier" where
  "tier_of share =
     (if share \<le> 80 / 100 then Core else if share \<le> 95 / 100 then Regular else Casual)"

text \<open>Modelled from the spec: the result of the absent \<open>get_developer_categories\<close>: a
  count per tier.\<close>

record categories =
  core :: nat
  regular :: nat
  casual :: nat

text \<open>Modelled from the spec: the tally step of the absent
  \<open>get_developer_categories\<close>: one more contributor in a tier.\<close>

fun tally :: "tier \<Rightarrow> categories \<Rightarrow> categories" where
  "tally Core cs = cs\<lparr>core := Suc (core cs)\<rparr>"
| "tally Regular cs = cs\<lparr>regular := Suc (regular cs)\<rparr>"
| "tally Casual cs = cs\<lparr>casual := Suc (casual cs)\<rparr>"

text \<open>Modelled from the spec: the walk of the absent \<open>get_developer_categories\<close> down
  the ranked counts, with the running sum of commits; each contributor is assigned
  the tier of the share reached once their commits are included.\<close>

fun categorize :: "nat \<Rightarrow> nat \<Rightarrow> categories \<Rightarrow> nat list \<Rightarrow> categories" where
  "categorize commits acc cs [] = cs"
| "categorize commits acc cs (n # ns) =
     categorize commits (acc + n) (tally (tier_of (of_nat (acc + n) / of_nat commits)) cs) ns"

text \<open>Modelled from the spec: the absent \<open>get_developer_categories\<close> (section 4.3):
  all zero when no commit has been processed, the walk over the ranked contributors
  otherwise.\<close>

definition get_developer_categories :: "analyzer \<Rightarrow> categories" where
  "get_developer_categories st =
     (if total_commits st = 0 then \<lparr>core = 0, regular = 0, casual = 0\<rparr>
      else categorize (total_commits st) 0 \<lparr>core = 0, regular = 0, casual = 0\<rparr>
             (map snd (ranked_by_count (contributors st))))"

subsection \<open>The events of the tests\<close>

text \<open>Modelled from the spec: a commit event with the given author and message and no
  file changes, as the extra events of \<open>tests/unit/test_metrics.py\<close> are.\<close>

definition commit :: "string \<Rightarrow> string \<Rightarrow> event" where
  "commit author msg =
     \<lparr>event_type = COMMIT_EVENT_TYPE, data = \<lparr>Author = author, message = msg, files = []\<rparr>\<rparr>"

text \<open>Modelled from the spec: a stand-in for the absent fixture \<open>data/events.json\<close>:
  nine commits by three identities. The fixture's counts per identity are not given;
  5, 3 and 1 are the only ones for which the scenarios 4, 5 and 8 of section 8 hold
  together under the algorithms of section 4.3 (see \<open>fixture_counts_forced\<close>). The
  names, the order of the events, the messages and the file changes are arbitrary.\<close>

definition fixture :: "event list" where
  "fixture =
     [commit ''Ada <ada@example.com>'' ''one'',
      commit ''Bob <bob@example.org>'' ''two'',
      commit ''Ada <ada@example.com>'' ''three'',
      commit ''Cy <cy@Example.net>'' ''four'',
      commit ''Bob <bob@example.org>'' ''five'',
      commit ''Ada <ada@example.com>'' ''six'',
      commit ''Ada <ada@example.com>'' ''seven'',
      commit ''Bob <bob@example.org>'' ''eight'',
      commit ''Ada <ada@example.com>'' ''nine'']"

subsection \<open>What the statements about the engine speak of\<close>

text \<open>
  The invariant of ingestion: the total is the sum of either ledger, every contributor has
  a commit, and a state without commits is the empty one.
\<close>

definition consistent :: "analyzer \<Rightarrow> bool" where
  "consistent st \<longleftrightarrow>
     total_commits st = sum_list (map snd (contributors st)) \<and>
     total_commits st = sum_list (map snd (organizations st)) \<and>
     list_all (\<lambda>e. 0 < snd e) (contributors st) \<and>
     (total_commits st = 0 \<longrightarrow> st = GitEventsAnalyzer)"

text \<open>The count of one tier in a result of \<open>get_developer_categories\<close>.\<close>

fun tier_count :: "tier \<Rightarrow> categories \<Rightarrow> nat" where
  "tier_count Core cs = core cs"
| "tier_count Regular cs = regular cs"
| "tier_count Casual cs = casual cs"

text \<open>
  The share of the commits that the \<open>i + 1\<close> first contributors of a ranking hold
  together: the cumulative share after including the contributor at index \<open>i\<close>.
\<close>

definition cumulative_share :: "nat list \<Rightarrow> nat \<Rightarrow> nat \<Rightarrow> rat" where
  "cumulative_share cs commits i = of_nat (sum_list (take (Suc i) cs)) / of_nat commits"

section \<open>Properties of the transport client\<close>

subsection \<open>Failed attempts\<close>

text \<open>
  A failed attempt leaves the loop with a reconnected session and a longer trace; a run
  of failed attempts is a prefix of everything the loop does.
\<close>

lemma on_transport_error_eq:
  "on_transport_error a c w =
     (c\<lparr>session := Some \<lparr>authorization = reconnect_header c\<rparr>\<rparr>,
      w\<lparr>trace := trace w @ [NewSession, Sleep (2 ^ a)]\<rparr>)"
  by (simp add: on_transport_error_def reconnect_def reconnect_header_def new_Session_def Let_def)

lemma attempts_fail_step:
  assumes "transport_error (net (sent w)) = Some e" and "session c = Some s"
  shows "attempts rf net meth u js lst (a # as) c w =
     attempts rf net meth u js (Some e) as
       (c\<lparr>session := Some \<lparr>authorization = reconnect_header c\<rparr>\<rparr>)
       (w\<lparr>sent := Suc (sent w),
          trace := trace w @ [Request meth u js (authorization s), NewSession, Sleep (2 ^ a)]\<rparr>)"
  using assms
  by (cases "net (sent w)")
     (auto simp: transport_error_def session_request_def on_transport_error_eq)

lemma attempts_fail_prefix:
  assumes "\<forall>i < length as. transport_error (net (sent w + i)) \<noteq> None"
    and "session c = Some s"
  shows "attempts rf net meth u js lst (as @ rest) c w =
     attempts rf net meth u js
       (if as = [] then lst else transport_error (net (sent w + length as - 1))) rest
       (if as = [] then c else c\<lparr>session := Some \<lparr>authorization = reconnect_header c\<rparr>\<rparr>)
       (w\<lparr>sent := sent w + length as,
          trace := trace w @ retry_log meth u js (authorization s) (reconnect_header c) as\<rparr>)"
  using assms
proof (induction as arbitrary: lst c w s)
  case Nil
  then show ?case by simp
next
  case (Cons a as)
  from Cons.prems(1) obtain e where t0: "transport_error (net (sent w)) = Some e" by force
  from Cons.prems(1) have rest: "\<forall>i < length as. transport_error (net (Suc (sent w) + i)) \<noteq> None"
    by force
  let ?c2 = "c\<lparr>session := Some \<lparr>authorization = reconnect_header c\<rparr>\<rparr>"
  let ?w2 = "w\<lparr>sent := Suc (sent w), trace := trace w @ [Request meth u js (authorization s), NewSession, Sleep (2 ^ a)]\<rparr>"
  have hdr: "reconnect_header ?c2 = reconnect_header c" by (simp add: reconnect_header_def)
  have step: "attempts rf net meth u js lst ((a # as) @ rest) c w =
     attempts rf net meth u js (Some e) (as @ rest) ?c2 ?w2"
    using attempts_fail_step [of net w e c s, OF t0 Cons.prems(2)] by simp
  have IH: "attempts rf net meth u js (Some e) (as @ rest) ?c2 ?w2 =
     attempts rf net meth u js
       (if as = [] then Some e else transport_error (net (sent ?w2 + length as - 1))) rest
       (if as = [] then ?c2 else ?c2\<lparr>session := Some \<lparr>authorization = reconnect_header ?c2\<rparr>\<rparr>)
       (?w2\<lparr>sent := sent ?w2 + length as,
          trace := trace ?w2 @ retry_log meth u js (authorization \<lparr>authorization = reconnect_header c\<rparr>) (reconnect_header ?c2) as\<rparr>)"
    by (rule Cons.IH) (use rest in simp_all)
  show ?case
    unfolding step IH using t0 by (auto simp: hdr)
qed

lemma attempts_answer:
  assumes "net (sent w) = Answers r" and "session c = Some s"
    and "\<not> (is_error_status (status_code r) \<and> status_code r = 403 \<and> truthy (refresh_token c))"
  shows "attempts rf net meth u js lst (a # as) c w =
     (Inr (Some r), c, w\<lparr>sent := Suc (sent w), trace := trace w @ [Request meth u js (authorization s)]\<rparr>)"
  using assms by (auto simp: session_request_def on_http_error_def)

lemma sleeps_retry_log: "sleeps (retry_log meth u js h0 h as) = map (\<lambda>a. 2 ^ a) as"
  by (induction as arbitrary: h0) simp_all

lemma sleeps_append: "sleeps (xs @ ys) = sleeps xs @ sleeps ys"
  by (induction xs rule: sleeps.induct) simp_all

lemma requests_append: "requests (xs @ ys) = requests xs @ requests ys"
  by (induction xs rule: requests.induct) simp_all

lemma length_requests_retry_log: "length (requests (retry_log meth u js h0 h as)) = length as"
  by (induction as arbitrary: h0) simp_all

lemma upt_split: "k \<le> n \<Longrightarrow> [0..<n] = [0..<k] @ [k..<n]"
  by (metis le_add_diff_inverse upt_add_eq_append zero_le)

lemma upt5: "[0..<MAX_RETRIES] = [0, 1, 2, 3, 4]"
  by (simp add: MAX_RETRIES_def upt_rec)

text \<open>
  Claim C6. If all \<open>MAX_RETRIES\<close> attempts of a request end in a connection or timeout
  error, \<open>get\<close> and \<open>post\<close> raise the error of the last attempt, as it was raised.
\<close>

theorem transport_error_after_retries:
  assumes "session c \<noteq> None"
    and "\<forall>i < MAX_RETRIES. transport_error (net (sent w + i)) \<noteq> None"
    and "transport_error (net (sent w + MAX_RETRIES - 1)) = Some e"
  shows "fst (get d net uri js c w) = Inl e \<and> fst (post d net uri js c w) = Inl e"
proof -
  from assms(1) obtain s where s: "session c = Some s" by auto
  have "fst (attempts rf net meth u js None ([0..<MAX_RETRIES] @ []) c w) = Inl e" for rf meth u
    using assms(2) assms(3)
    by (subst attempts_fail_prefix [where s = s]) (simp_all add: s MAX_RETRIES_def)
  then show ?thesis
    using s by (simp add: get_def post_def make_request_def make_request_with_def)
qed

theorem transport_error_after_retries_witness:
  "session connected_client \<noteq> None
   \<and> transport_error (always_down 0) = Some (ConnectionError ''first'')
   \<and> transport_error (always_down 1) = Some (ConnectionError ''second'')
   \<and> transport_error (always_down 2) = Some (Timeout ''third'')
   \<and> transport_error (always_down 3) = Some (ConnectionError ''fourth'')
   \<and> transport_error (always_down 4) = Some (Timeout ''fifth'')
   \<and> fst (get 1 always_down ''events/'' None connected_client world0) = Inl (Timeout ''fifth'')
   \<and> fst (post 1 always_down ''events/'' None connected_client world0) = Inl (Timeout ''fifth'')"
proof -
  have h1: "session connected_client \<noteq> None" by (simp add: connected_client_def)
  have h2: "\<forall>i < MAX_RETRIES. transport_error (always_down (sent world0 + i)) \<noteq> None"
    by (simp add: always_down_def transport_error_def)
  have h3: "transport_error (always_down (sent world0 + MAX_RETRIES - 1)) = Some (Timeout ''fifth'')"
    by (simp add: always_down_def transport_error_def world0_def MAX_RETRIES_def)
  have each: "transport_error (always_down 0) = Some (ConnectionError ''first'')"
    "transport_error (always_down 1) = Some (ConnectionError ''second'')"
    "transport_error (always_down 2) = Some (Timeout ''third'')"
    "transport_error (always_down 3) = Some (ConnectionError ''fourth'')"
    "transport_error (always_down 4) = Some (Timeout ''fifth'')"
    by (simp_all add: always_down_def transport_error_def)
  from transport_error_after_retries [OF h1 h2 h3, of 1 "''events/''" None] h1 each
  show ?thesis by blast
qed

subsection \<open>The trace only grows\<close>

lemma attempts_extends:
  assumes rf: "\<And>c w r c' w'. rf c w = (r, c', w') \<Longrightarrow> \<exists>ext. trace w' = trace w @ ext"
    and run: "attempts rf net meth u js lst as c w = (res, c', w')"
  shows "\<exists>ext. trace w' = trace w @ ext"
  using run
proof (induction as arbitrary: lst c w)
  case Nil
  then show ?case by (auto split: option.splits)
next
  case (Cons a as)
  show ?case
  proof (cases "session c")
    case None
    with Cons.prems show ?thesis by simp
  next
    case (Some s)
    let ?w1 = "w\<lparr>sent := Suc (sent w), trace := trace w @ [Request meth u js (authorization s)]\<rparr>"
    show ?thesis
    proof (cases "transport_error (net (sent w))")
      case (Some e)
      from attempts_fail_step [of net w e c s rf meth u js lst a as, OF Some \<open>session c = Some s\<close>] Cons.prems
      have "attempts rf net meth u js (Some e) as
          (c\<lparr>session := Some \<lparr>authorization = reconnect_header c\<rparr>\<rparr>)
          (w\<lparr>sent := Suc (sent w),
             trace := trace w @ [Request meth u js (authorization s), NewSession, Sleep (2 ^ a)]\<rparr>)
          = (res, c', w')"
        by simp
      from Cons.IH [OF this] show ?thesis by auto
    next
      case None
      show ?thesis
      proof (cases "net (sent w)")
        case (Answers r)
        show ?thesis
        proof (cases "is_error_status (status_code r) \<and> status_code r = 403 \<and> truthy (refresh_token c)")
          case True
          obtain r2 c2 w2 where r2: "rf c ?w1 = (r2, c2, w2)" by (metis prod_cases3)
          from rf [OF this] obtain ext where "trace w2 = trace ?w1 @ ext" by blast
          moreover have "w' = w2"
            using Cons.prems Answers True r2 \<open>session c = Some s\<close>
            by (auto simp: session_request_def on_http_error_def split: sum.splits)
          ultimately show ?thesis by simp
        next
          case False
          then have "w' = ?w1"
            using Cons.prems Answers \<open>session c = Some s\<close>
            by (auto simp: session_request_def on_http_error_def split: if_splits)
          then show ?thesis by simp
        qed
      next
        case (OtherFails m)
        then have "w' = ?w1"
          using Cons.prems \<open>session c = Some s\<close> by (simp add: session_request_def)
        then show ?thesis by simp
      qed (use None in \<open>simp_all add: transport_error_def\<close>)
    qed
  qed
qed

lemma refresh_with_response_world:
  "snd (snd (refresh_with_response x)) = snd (snd x)"
  by (cases x) (auto simp: refresh_with_response_def split: sum.splits option.splits body.splits)

lemma refresh_extends:
  "refresh_auth_token d net c w = (res, c', w') \<Longrightarrow> \<exists>ext. trace w' = trace w @ ext"
proof (induction d arbitrary: c w res c' w')
  case 0
  then show ?case by simp
next
  case (Suc d)
  let ?x = "make_request_with (refresh_auth_token d net) net ''post'' ''token/refresh/''
          (Some [(''refresh'', refresh_token c)]) c w"
  from Suc.prems have w': "w' = snd (snd ?x)"
    using refresh_with_response_world [of ?x] by simp
  show ?case
  proof (cases "session c = None")
    case True
    then show ?thesis using w' by (simp add: make_request_with_def)
  next
    case False
    then have "?x = attempts (refresh_auth_token d net) net ''post'' (url c @ ''/'' @ ''token/refresh/'')
        (Some [(''refresh'', refresh_token c)]) None [0..<MAX_RETRIES] c w"
      by (auto simp: make_request_with_def)
    then have run: "attempts (refresh_auth_token d net) net ''post'' (url c @ ''/'' @ ''token/refresh/'')
        (Some [(''refresh'', refresh_token c)]) None [0..<MAX_RETRIES] c w
        = (fst ?x, fst (snd ?x), w')"
      using w' by simp
    have ih: "\<exists>ext. trace wb = trace wa @ ext"
      if "refresh_auth_token d net ca wa = (rb, cb, wb)" for ca wa rb cb wb
      using that by (rule Suc.IH)
    from attempts_extends [of "refresh_auth_token d net", OF ih run] show ?thesis .
  qed
qed

text \<open>
  Claim C7. When the first \<open>k\<close> attempts of a request fail with a connection or timeout
  error, each of them is followed by a new session, which carries the bearer token if
  the client holds one, and by a sleep of 2 to the power of the attempt's number;
  whatever happens afterwards comes after these. When all \<open>MAX_RETRIES\<close> attempts fail,
  nothing else happens: five requests are sent and the delays are 1, 2, 4, 8 and 16.
  When fewer fail and the next attempt is answered without starting a token refresh,
  that answer is returned and no further request is sent.
\<close>

theorem reconnect_and_backoff:
  assumes "session c = Some s" and "k \<le> MAX_RETRIES"
    and "\<forall>i < k. transport_error (net (sent w + i)) \<noteq> None"
    and "make_request d net meth uri js c w = (res, c', w')"
  shows
    "(\<exists>rest. trace w' = trace w @
         retry_log meth (url c @ ''/'' @ uri) js (authorization s) (reconnect_header c) [0..<k] @ rest)
   \<and> (k = MAX_RETRIES \<longrightarrow>
         trace w' = trace w @
           retry_log meth (url c @ ''/'' @ uri) js (authorization s) (reconnect_header c) [0..<k]
       \<and> sleeps (drop (length (trace w)) (trace w')) = [1, 2, 4, 8, 16]
       \<and> length (requests (drop (length (trace w)) (trace w'))) = MAX_RETRIES
       \<and> sent w' = sent w + MAX_RETRIES
       \<and> session c' = Some \<lparr>authorization = reconnect_header c\<rparr>)
   \<and> (k < MAX_RETRIES \<and> net (sent w + k) = Answers r \<and>
      \<not> (is_error_status (status_code r) \<and> status_code r = 403 \<and> truthy (refresh_token c)) \<longrightarrow>
         res = Inr (Some r)
       \<and> trace w' = trace w @
           retry_log meth (url c @ ''/'' @ uri) js (authorization s) (reconnect_header c) [0..<k] @
           [Request meth (url c @ ''/'' @ uri) js
              (if k = 0 then authorization s else reconnect_header c)]
       \<and> sleeps (drop (length (trace w)) (trace w')) = map (\<lambda>attempt. 2 ^ attempt) [0..<k]
       \<and> length (requests (drop (length (trace w)) (trace w'))) = Suc k
       \<and> sent w' = sent w + Suc k
       \<and> (0 < k \<longrightarrow> session c' = Some \<lparr>authorization = reconnect_header c\<rparr>))"
proof -
  let ?u = "url c @ ''/'' @ uri"
  let ?rf = "refresh_auth_token d net"
  let ?c1 = "if k = 0 then c else c\<lparr>session := Some \<lparr>authorization = reconnect_header c\<rparr>\<rparr>"
  let ?retries = "retry_log meth ?u js (authorization s) (reconnect_header c) [0..<k]"
  let ?w1 = "w\<lparr>sent := sent w + k, trace := trace w @ ?retries\<rparr>"
  let ?lst = "if k = 0 then None else transport_error (net (sent w + k - 1))"
  have mr: "make_request d net meth uri js c w = attempts ?rf net meth ?u js None ([0..<k] @ [k..<MAX_RETRIES]) c w"
    using assms(1,2) by (simp add: make_request_def make_request_with_def upt_split [symmetric])
  have pre: "attempts ?rf net meth ?u js None ([0..<k] @ [k..<MAX_RETRIES]) c w =
     attempts ?rf net meth ?u js ?lst [k..<MAX_RETRIES] ?c1 ?w1"
    using assms(3) by (subst attempts_fail_prefix [where s = s]) (simp_all add: assms(1))
  from mr pre assms(4)
  have run: "attempts ?rf net meth ?u js ?lst [k..<MAX_RETRIES] ?c1 ?w1 = (res, c', w')"
    by simp
  have A: "\<exists>rest. trace w' = trace w @ ?retries @ rest"
  proof -
    have "\<exists>ext. trace wb = trace wa @ ext"
      if "refresh_auth_token d net ca wa = (rb, cb, wb)" for ca wa rb cb wb
      using that by (rule refresh_extends)
    from attempts_extends [of ?rf, OF this run] show ?thesis by simp
  qed
  have five: "map (\<lambda>attempt. 2 ^ attempt) [0..<5] = [1, 2, 4, 8, 16::nat]"
    by (simp add: upt_rec)
  have B: "trace w' = trace w @ ?retries
       \<and> sleeps (drop (length (trace w)) (trace w')) = [1, 2, 4, 8, 16]
       \<and> length (requests (drop (length (trace w)) (trace w'))) = MAX_RETRIES
       \<and> sent w' = sent w + MAX_RETRIES
       \<and> session c' = Some \<lparr>authorization = reconnect_header c\<rparr>"
    if k: "k = MAX_RETRIES"
  proof -
    from k have "attempts ?rf net meth ?u js ?lst [k..<MAX_RETRIES] ?c1 ?w1 =
       ((case ?lst of Some e \<Rightarrow> Inl e | None \<Rightarrow> Inr None), ?c1, ?w1)"
      by (simp split: option.splits)
    with run have cw: "c' = ?c1" "w' = ?w1" by simp_all
    have t: "trace w' = trace w @ ?retries" using cw by simp
    have "sleeps (drop (length (trace w)) (trace w')) = map (\<lambda>attempt. 2 ^ attempt) [0..<k]"
      unfolding t by (simp add: sleeps_retry_log)
    then have s: "sleeps (drop (length (trace w)) (trace w')) = [1, 2, 4, 8, 16]"
      using five k by (simp add: MAX_RETRIES_def)
    have r: "length (requests (drop (length (trace w)) (trace w'))) = MAX_RETRIES"
      unfolding t using k by (simp add: length_requests_retry_log)
    from cw k have "sent w' = sent w + MAX_RETRIES" "session c' = Some \<lparr>authorization = reconnect_header c\<rparr>"
      by (simp_all add: MAX_RETRIES_def)
    with t s r show ?thesis by blast
  qed
  have C: "res = Inr (Some r)
       \<and> trace w' = trace w @ ?retries @
           [Request meth ?u js (if k = 0 then authorization s else reconnect_header c)]
       \<and> sleeps (drop (length (trace w)) (trace w')) = map (\<lambda>attempt. 2 ^ attempt) [0..<k]
       \<and> length (requests (drop (length (trace w)) (trace w'))) = Suc k
       \<and> sent w' = sent w + Suc k
       \<and> (0 < k \<longrightarrow> session c' = Some \<lparr>authorization = reconnect_header c\<rparr>)"
    if k: "k < MAX_RETRIES" and a: "net (sent w + k) = Answers r"
      and ok: "\<not> (is_error_status (status_code r) \<and> status_code r = 403 \<and> truthy (refresh_token c))"
  proof -
    from k have l: "[k..<MAX_RETRIES] = k # [Suc k..<MAX_RETRIES]" by (simp add: upt_conv_Cons)
    define s1 where "s1 = (if k = 0 then s else \<lparr>authorization = reconnect_header c\<rparr>)"
    have s1: "session ?c1 = Some s1" "authorization s1 = (if k = 0 then authorization s else reconnect_header c)"
      using assms(1) by (simp_all add: s1_def)
    have a1: "net (sent ?w1) = Answers r" using a by simp
    have ok1: "\<not> (is_error_status (status_code r) \<and> status_code r = 403 \<and> truthy (refresh_token ?c1))"
      using ok by simp
    have "attempts ?rf net meth ?u js ?lst [k..<MAX_RETRIES] ?c1 ?w1 =
      (Inr (Some r), ?c1, ?w1\<lparr>sent := Suc (sent ?w1), trace := trace ?w1 @ [Request meth ?u js (authorization s1)]\<rparr>)"
      unfolding l
      using attempts_answer [where net = net and w = "?w1" and c = "?c1" and s = s1 and r = r] a1 s1(1) ok1
      by blast
    with run have cw: "res = Inr (Some r)" "c' = ?c1"
      "w' = ?w1\<lparr>sent := Suc (sent ?w1), trace := trace ?w1 @ [Request meth ?u js (authorization s1)]\<rparr>"
      by simp_all
    have t: "trace w' = trace w @ ?retries @
           [Request meth ?u js (if k = 0 then authorization s else reconnect_header c)]"
      using cw(3) s1(2) by simp
    have sl: "sleeps (drop (length (trace w)) (trace w')) = map (\<lambda>attempt. 2 ^ attempt) [0..<k]"
      unfolding t by (simp add: sleeps_append sleeps_retry_log)
    have rq: "length (requests (drop (length (trace w)) (trace w'))) = Suc k"
      unfolding t by (simp add: requests_append length_requests_retry_log)
    from cw have "sent w' = sent w + Suc k" "0 < k \<longrightarrow> session c' = Some \<lparr>authorization = reconnect_header c\<rparr>"
      by simp_all
    with cw(1) t sl rq show ?thesis by blast
  qed
  from A B C show ?thesis by blast
qed

theorem reconnect_and_backoff_witness:
  "session connected_client = Some \<lparr>authorization = Some ''Bearer old''\<rparr>
   \<and> transport_error (down_twice 0) = Some (ConnectionError ''reset'')
   \<and> transport_error (down_twice 1) = Some (Timeout ''read timed out'')
   \<and> down_twice 2 = Answers (resp 200 (Json None None))
   \<and> make_request 1 down_twice ''get'' ''events/'' None connected_client world0 =
       (Inr (Some (resp 200 (Json None None))),
        connected_client\<lparr>session := Some \<lparr>authorization = Some ''Bearer old''\<rparr>\<rparr>,
        \<lparr>sent = 3,
         trace =
           [Request ''get'' ''https://example.org/api/events/'' None (Some ''Bearer old''),
            NewSession, Sleep 1,
            Request ''get'' ''https://example.org/api/events/'' None (Some ''Bearer old''),
            NewSession, Sleep 2,
            Request ''get'' ''https://example.org/api/events/'' None (Some ''Bearer old'')]\<rparr>)"
proof -
  let ?x = "make_request 1 down_twice ''get'' ''events/'' None connected_client world0"
  let ?r = "resp 200 (Json None None)"
  have h1: "session connected_client = Some \<lparr>authorization = Some ''Bearer old''\<rparr>"
    by (simp add: connected_client_def)
  have h2: "(2::nat) \<le> MAX_RETRIES" by (simp add: MAX_RETRIES_def)
  have each: "transport_error (down_twice 0) = Some (ConnectionError ''reset'')"
    "transport_error (down_twice 1) = Some (Timeout ''read timed out'')"
    by (simp_all add: down_twice_def transport_error_def)
  have h3: "\<forall>i < 2. transport_error (down_twice (sent world0 + i)) \<noteq> None"
    using each by (auto simp: world0_def less_Suc_eq numeral_2_eq_2)
  have a: "down_twice 2 = Answers ?r" by (simp add: down_twice_def)
  have h4: "(2::nat) < MAX_RETRIES \<and> down_twice (sent world0 + 2) = Answers ?r \<and>
      \<not> (is_error_status (status_code ?r) \<and> status_code ?r = 403 \<and>
         truthy (refresh_token connected_client))"
    by (simp add: MAX_RETRIES_def world0_def is_error_status_def resp_def down_twice_def)
  have h5: "?x = (fst ?x, fst (snd ?x), snd (snd ?x))" by simp
  have two: "[0..<2] = [0, 1]" by (simp add: upt_rec numeral_2_eq_2)
  from reconnect_and_backoff [OF h1 h2 h3 h5, of ?r] h4
  have "fst ?x = Inr (Some ?r)"
    and "trace (snd (snd ?x)) = trace world0 @
      retry_log ''get'' (url connected_client @ ''/'' @ ''events/'') None
        (authorization \<lparr>authorization = Some ''Bearer old''\<rparr>)
        (reconnect_header connected_client) [0..<2] @
      [Request ''get'' (url connected_client @ ''/'' @ ''events/'') None
         (if (2::nat) = 0 then authorization \<lparr>authorization = Some ''Bearer old''\<rparr>
          else reconnect_header connected_client)]"
    and "sent (snd (snd ?x)) = sent world0 + Suc 2"
    and "session (fst (snd ?x)) = Some \<lparr>authorization = reconnect_header connected_client\<rparr>"
    by simp_all
  then have "fst ?x = Inr (Some ?r)"
    and "snd (snd ?x) = \<lparr>sent = 3,
         trace =
           [Request ''get'' ''https://example.org/api/events/'' None (Some ''Bearer old''),
            NewSession, Sleep 1,
            Request ''get'' ''https://example.org/api/events/'' None (Some ''Bearer old''),
            NewSession, Sleep 2,
            Request ''get'' ''https://example.org/api/events/'' None (Some ''Bearer old'')]\<rparr>"
    and "session (fst (snd ?x)) = Some \<lparr>authorization = Some ''Bearer old''\<rparr>"
    by (simp_all add: world0_def connected_client_def reconnect_header_def two)
  moreover have "fst (snd ?x) = connected_client\<lparr>session := session (fst (snd ?x))\<rparr>"
    by (simp add: make_request_def make_request_with_def upt5 world0_def
      connected_client_def down_twice_def resp_def session_request_def
      is_error_status_def on_transport_error_eq reconnect_header_def)
  ultimately have "?x = (Inr (Some ?r),
        connected_client\<lparr>session := Some \<lparr>authorization = Some ''Bearer old''\<rparr>\<rparr>,
        \<lparr>sent = 3,
         trace =
           [Request ''get'' ''https://example.org/api/events/'' None (Some ''Bearer old''),
            NewSession, Sleep 1,
            Request ''get'' ''https://example.org/api/events/'' None (Some ''Bearer old''),
            NewSession, Sleep 2,
            Request ''get'' ''https://example.org/api/events/'' None (Some ''Bearer old'')]\<rparr>)"
    by (metis prod.collapse)
  with h1 each a show ?thesis by blast
qed

subsection \<open>Requests without a session or without credentials\<close>

lemma request_headers_append: "request_headers (xs @ ys) = request_headers xs @ request_headers ys"
  by (induction xs rule: request_headers.induct) simp_all

text \<open>
  Claim C8. On a client without a session, \<open>_make_request\<close>, \<open>get\<close> and \<open>post\<close> raise
  \<open>ValueError\<close>; the client is unchanged, and nothing is sent or traced.
\<close>

theorem request_before_connect:
  assumes "session c = None"
  shows "make_request d net meth uri js c w =
           (Inl (ValueError ''Session not connected. Call connect() first.''), c, w)
       \<and> get d net uri js c w =
           (Inl (ValueError ''Session not connected. Call connect() first.''), c, w)
       \<and> post d net uri js c w =
           (Inl (ValueError ''Session not connected. Call connect() first.''), c, w)"
  using assms by (simp add: get_def post_def make_request_def make_request_with_def)

theorem request_before_connect_witness:
  "session (GrimoireLabClient ''https://example.org'' None None) = None
   \<and> fst (get 0 (\<lambda>n. ConnFails ''down'') ''events'' None
            (GrimoireLabClient ''https://example.org'' None None) \<lparr>sent = 0, trace = []\<rparr>)
     = Inl (ValueError ''Session not connected. Call connect() first.'')"
  using request_before_connect [of "GrimoireLabClient ''https://example.org'' None None" 0 "\<lambda>n. ConnFails ''down''"
       "''get''" "''events''" None "\<lparr>sent = 0, trace = []\<rparr>"]
  by (simp add: GrimoireLabClient_def)

lemma attempts_unauthenticated:
  assumes "unauthenticated c" and "attempts rf net meth u js lst as c w = (res, c', w')"
  shows "unauthenticated c' \<and> (\<exists>new. trace w' = trace w @ new \<and> set (request_headers new) \<subseteq> {None})"
  using assms
proof (induction as arbitrary: lst c w)
  case Nil
  then show ?case by (auto split: option.splits)
next
  case (Cons a as)
  from Cons.prems(1) obtain s where s: "session c = Some s" "authorization s = None"
    and t: "token c = None" "refresh_token c = None"
    by (auto simp: unauthenticated_def split: option.splits)
  let ?w1 = "w\<lparr>sent := Suc (sent w), trace := trace w @ [Request meth u js None]\<rparr>"
  show ?case
  proof (cases "transport_error (net (sent w))")
    case None
    then have "c' = c \<and> w' = ?w1"
      using Cons.prems(2) s t
      by (cases "net (sent w)")
         (auto simp: session_request_def on_http_error_def transport_error_def split: if_splits)
    then show ?thesis using Cons.prems(1) by simp
  next
    case (Some e)
    let ?c2 = "c\<lparr>session := Some \<lparr>authorization = reconnect_header c\<rparr>\<rparr>"
    let ?w2 = "w\<lparr>sent := Suc (sent w), trace := trace w @ [Request meth u js (authorization s), NewSession, Sleep (2 ^ a)]\<rparr>"
    have step: "attempts rf net meth u js (Some e) as ?c2 ?w2 = (res, c', w')"
      using attempts_fail_step [of net w e c s rf meth u js lst a as, OF Some s(1)] Cons.prems(2)
      by simp
    have u2: "unauthenticated ?c2"
      using t by (simp add: unauthenticated_def reconnect_header_def)
    from Cons.IH [OF u2 step] obtain new where
      "unauthenticated c'" "trace w' = trace ?w2 @ new" "set (request_headers new) \<subseteq> {None}"
      by blast
    then show ?thesis using s(2) by simp
  qed
qed

lemma make_request_unauthenticated:
  assumes "unauthenticated c" and "make_request d net meth uri js c w = (res, c', w')"
  shows "unauthenticated c' \<and> (\<exists>new. trace w' = trace w @ new \<and> set (request_headers new) \<subseteq> {None})"
proof -
  from assms(1) have "session c \<noteq> None" by (auto simp: unauthenticated_def split: option.splits)
  with assms(2) have "attempts (refresh_auth_token d net) net meth (url c @ ''/'' @ uri) js None
      [0..<MAX_RETRIES] c w = (res, c', w')"
    by (simp add: make_request_def make_request_with_def)
  from attempts_unauthenticated [OF assms(1) this] show ?thesis .
qed

subsection \<open>Clients without credentials hold no tokens\<close>

lemma attempts_credentials:
  assumes rf: "\<And>c w r c' w'. rf c w = (r, c', w') \<Longrightarrow> same_credentials c c'"
    and run: "attempts rf net meth u js lst as c w = (res, c', w')"
  shows "same_credentials c c'"
  using run
proof (induction as arbitrary: lst c w)
  case Nil
  then show ?case by (auto simp: same_credentials_def split: option.splits)
next
  case (Cons a as)
  show ?case
  proof (cases "session c")
    case None
    with Cons.prems show ?thesis by (simp add: same_credentials_def)
  next
    case (Some s)
    let ?w1 = "w\<lparr>sent := Suc (sent w), trace := trace w @ [Request meth u js (authorization s)]\<rparr>"
    show ?thesis
    proof (cases "transport_error (net (sent w))")
      case (Some e)
      from attempts_fail_step [of net w e c s rf meth u js lst a as, OF Some \<open>session c = Some s\<close>] Cons.prems
      have "attempts rf net meth u js (Some e) as
          (c\<lparr>session := Some \<lparr>authorization = reconnect_header c\<rparr>\<rparr>)
          (w\<lparr>sent := Suc (sent w),
             trace := trace w @ [Request meth u js (authorization s), NewSession, Sleep (2 ^ a)]\<rparr>)
          = (res, c', w')"
        by simp
      from Cons.IH [OF this] show ?thesis by (simp add: same_credentials_def)
    next
      case None
      show ?thesis
      proof (cases "net (sent w)")
        case (Answers r)
        show ?thesis
        proof (cases "is_error_status (status_code r) \<and> status_code r = 403 \<and> truthy (refresh_token c)")
          case True
          obtain r2 c2 w2 where r2: "rf c ?w1 = (r2, c2, w2)" by (metis prod_cases3)
          have "c' = c2"
            using Cons.prems Answers True r2 \<open>session c = Some s\<close>
            by (auto simp: session_request_def on_http_error_def split: sum.splits)
          with rf [OF r2] show ?thesis by simp
        next
          case False
          then have "c' = c"
            using Cons.prems Answers \<open>session c = Some s\<close>
            by (auto simp: session_request_def on_http_error_def split: if_splits)
          then show ?thesis by (simp add: same_credentials_def)
        qed
      next
        case (OtherFails m)
        then have "c' = c"
          using Cons.prems \<open>session c = Some s\<close> by (simp add: session_request_def)
        then show ?thesis by (simp add: same_credentials_def)
      qed (use None in \<open>simp_all add: transport_error_def\<close>)
    qed
  qed
qed

lemma make_request_with_credentials:
  assumes rf: "\<And>c w r c' w'. rf c w = (r, c', w') \<Longrightarrow> same_credentials c c'"
    and run: "make_request_with rf net meth uri js c w = (res, c', w')"
  shows "same_credentials c c'"
proof (cases "session c = None")
  case True
  with run show ?thesis by (simp add: make_request_with_def same_credentials_def)
next
  case False
  with run have "attempts rf net meth (url c @ ''/'' @ uri) js None [0..<MAX_RETRIES] c w = (res, c', w')"
    by (auto simp: make_request_with_def)
  from attempts_credentials [of rf, OF rf this] show ?thesis .
qed

lemma refresh_with_response_credentials:
  "refresh_with_response (r, c, w) = (r', c', w') \<Longrightarrow> same_credentials c c'"
  by (auto simp: refresh_with_response_def same_credentials_def
      split: sum.splits option.splits body.splits if_splits)

lemma refresh_credentials:
  "refresh_auth_token d net c w = (res, c', w') \<Longrightarrow> same_credentials c c'"
proof (induction d arbitrary: c w res c' w')
  case 0
  then show ?case by (simp add: same_credentials_def)
next
  case (Suc d)
  obtain r1 c1 w1 where x: "make_request_with (refresh_auth_token d net) net ''post'' ''token/refresh/''
          (Some [(''refresh'', refresh_token c)]) c w = (r1, c1, w1)"
    by (metis prod_cases3)
  have ih: "same_credentials ca cb"
    if "refresh_auth_token d net ca wa = (rb, cb, wb)" for ca wa rb cb wb
    using that by (rule Suc.IH)
  from make_request_with_credentials [of "refresh_auth_token d net", OF ih x]
  have "same_credentials c c1" .
  moreover from Suc.prems x have "refresh_with_response (r1, c1, w1) = (res, c', w')" by simp
  from refresh_with_response_credentials [OF this] have "same_credentials c1 c'" .
  ultimately show ?case by (simp add: same_credentials_def)
qed

lemma make_request_credentials:
  assumes "make_request d net meth uri js c w = (res, c', w')"
  shows "same_credentials c c'"
proof -
  have rf: "same_credentials ca cb"
    if "refresh_auth_token d net ca wa = (rb, cb, wb)" for ca wa rb cb wb
    using that by (rule refresh_credentials)
  from make_request_with_credentials [of "refresh_auth_token d net", OF rf assms [unfolded make_request_def]]
  show ?thesis .
qed

lemma attempts_no_tokens:
  assumes "token c = None" and "refresh_token c = None"
    and "attempts rf net meth u js lst as c w = (res, c', w')"
  shows "token c' = None \<and> refresh_token c' = None"
  using assms
proof (induction as arbitrary: lst c w)
  case Nil
  then show ?case by (auto split: option.splits)
next
  case (Cons a as)
  show ?case
  proof (cases "session c")
    case None
    with Cons.prems show ?thesis by simp
  next
    case (Some s)
    show ?thesis
    proof (cases "transport_error (net (sent w))")
      case (Some e)
      from attempts_fail_step [of net w e c s rf meth u js lst a as, OF Some \<open>session c = Some s\<close>] Cons.prems(3)
      have "attempts rf net meth u js (Some e) as
          (c\<lparr>session := Some \<lparr>authorization = reconnect_header c\<rparr>\<rparr>)
          (w\<lparr>sent := Suc (sent w),
             trace := trace w @ [Request meth u js (authorization s), NewSession, Sleep (2 ^ a)]\<rparr>)
          = (res, c', w')"
        by simp
      from Cons.IH [OF _ _ this] Cons.prems(1,2) show ?thesis by simp
    next
      case None
      then have "c' = c"
        using Cons.prems \<open>session c = Some s\<close>
        by (cases "net (sent w)")
           (auto simp: session_request_def on_http_error_def transport_error_def split: if_splits)
      with Cons.prems(1,2) show ?thesis by simp
    qed
  qed
qed

lemma make_request_no_tokens:
  assumes "token c = None" and "refresh_token c = None"
    and "make_request d net meth uri js c w = (res, c', w')"
  shows "token c' = None \<and> refresh_token c' = None"
proof (cases "session c = None")
  case True
  with assms show ?thesis by (simp add: make_request_def make_request_with_def)
next
  case False
  with assms(3) have "attempts (refresh_auth_token d net) net meth (url c @ ''/'' @ uri) js None
      [0..<MAX_RETRIES] c w = (res, c', w')"
    by (auto simp: make_request_def make_request_with_def)
  from attempts_no_tokens [OF assms(1,2) this] show ?thesis .
qed

lemma connect_credentials:
  assumes "connect d net c w = (res, c', w')"
  shows "same_credentials c c'"
proof (cases "truthy (user c) \<and> truthy (password c)")
  case False
  with assms show ?thesis by (auto simp: connect_def Let_def same_credentials_def)
next
  case True
  let ?c0 = "c\<lparr>session := Some new_Session\<rparr>"
  let ?w0 = "w\<lparr>trace := trace w @ [NewSession]\<rparr>"
  obtain r1 c1 w1 where x: "make_request d net ''post'' ''token/''
      (Some [(''username'', user c), (''password'', password c)]) ?c0 ?w0 = (r1, c1, w1)"
    by (metis prod_cases3)
  from make_request_credentials [OF x] have 1: "same_credentials c c1"
    by (simp add: same_credentials_def)
  from assms True x have "same_credentials c1 c'"
    by (auto simp: connect_def Let_def post_def same_credentials_def
        split: sum.splits option.splits body.splits if_splits)
  with 1 show ?thesis by (simp add: same_credentials_def)
qed

lemma reachable_without_credentials:
  assumes "reachable c" and "\<not> (truthy (user c) \<and> truthy (password c))"
  shows "token c = None \<and> refresh_token c = None"
  using assms
proof (induction rule: reachable.induct)
  case (constructed u usr pw)
  then show ?case by (simp add: GrimoireLabClient_def)
next
  case (connected c d net w res c' w')
  from connect_credentials [OF connected.hyps(2)]
  have same: "user c' = user c" "password c' = password c" by (simp_all add: same_credentials_def)
  with connected.prems have no: "\<not> (truthy (user c) \<and> truthy (password c))" by simp
  with connected.IH have "token c = None \<and> refresh_token c = None" by blast
  moreover from no connected.hyps(2) have "c' = c\<lparr>session := Some new_Session\<rparr>"
    by (simp add: connect_def Let_def)
  ultimately show ?case by simp
next
  case (requested c d net meth uri js w res' c' w')
  from make_request_credentials [OF requested.hyps(2)]
  have same: "user c' = user c" "password c' = password c" by (simp_all add: same_credentials_def)
  with requested.prems have no: "\<not> (truthy (user c) \<and> truthy (password c))" by simp
  with requested.IH have "token c = None" "refresh_token c = None" by blast+
  from make_request_no_tokens [OF this requested.hyps(2)] show ?case .
qed

text \<open>
  Claim C10. On a client without user or password, \<open>connect\<close> creates a new session
  and returns without sending any request. Such a client, made by the constructor and
  used through \<open>connect\<close> and requests only, holds no tokens, so that the tokens stay
  \<open>None\<close> and the new session has no Authorization header. Every request that a client
  in this state sends carries no Authorization header and leaves the client in this
  state.
\<close>

theorem connect_without_credentials:
  assumes "reachable c" and "\<not> (truthy (user c) \<and> truthy (password c))"
  shows "connect d net c w =
           (Inr (), c\<lparr>session := Some new_Session\<rparr>, w\<lparr>trace := trace w @ [NewSession]\<rparr>)
       \<and> token c = None \<and> refresh_token c = None
       \<and> unauthenticated (c\<lparr>session := Some new_Session\<rparr>)
       \<and> (\<forall>c1 d1 net1 meth uri js w1 res c2 w2.
            unauthenticated c1 \<and> make_request d1 net1 meth uri js c1 w1 = (res, c2, w2) \<longrightarrow>
            unauthenticated c2 \<and>
            (\<exists>new. trace w2 = trace w1 @ new \<and> set (request_headers new) \<subseteq> {None}))"
proof -
  have 1: "connect d net c w =
           (Inr (), c\<lparr>session := Some new_Session\<rparr>, w\<lparr>trace := trace w @ [NewSession]\<rparr>)"
    using assms(2) by (simp add: connect_def Let_def)
  from reachable_without_credentials [OF assms]
  have 2: "token c = None" "refresh_token c = None" by blast+
  then have 3: "unauthenticated (c\<lparr>session := Some new_Session\<rparr>)"
    by (simp add: unauthenticated_def new_Session_def)
  from 1 2 3 make_request_unauthenticated show ?thesis by blast
qed

theorem connect_without_credentials_witness:
  "reachable (GrimoireLabClient ''https://example.org/api'' None None)
   \<and> \<not> (truthy (user (GrimoireLabClient ''https://example.org/api'' None None))
       \<and> truthy (password (GrimoireLabClient ''https://example.org/api'' None None)))
   \<and> connect 1 always_down (GrimoireLabClient ''https://example.org/api'' None None) world0 =
       (Inr (),
        \<lparr>url = ''https://example.org/api'', user = None, password = None,
         session = Some \<lparr>authorization = None\<rparr>, token = None, refresh_token = None\<rparr>,
        \<lparr>sent = 0, trace = [NewSession]\<rparr>)"
proof -
  let ?c = "GrimoireLabClient ''https://example.org/api'' None None"
  have h0: "reachable ?c" by (rule reachable.constructed)
  have h1: "\<not> (truthy (user ?c) \<and> truthy (password ?c))" by (simp add: GrimoireLabClient_def)
  from connect_without_credentials [OF h0 h1, of 1 always_down world0]
  have "connect 1 always_down ?c world0 =
      (Inr (), ?c\<lparr>session := Some new_Session\<rparr>, world0\<lparr>trace := trace world0 @ [NewSession]\<rparr>)"
    by blast
  then have "connect 1 always_down ?c world0 =
       (Inr (),
        \<lparr>url = ''https://example.org/api'', user = None, password = None,
         session = Some \<lparr>authorization = None\<rparr>, token = None, refresh_token = None\<rparr>,
        \<lparr>sent = 0, trace = [NewSession]\<rparr>)"
    by (simp add: GrimoireLabClient_def new_Session_def world0_def)
  with h0 h1 show ?thesis by blast
qed

subsection \<open>Answers with an error status\<close>

text \<open>
  Claim C5. The claim says that a request answered by 403 is sent again once the token
  has been refreshed. The code does not do that: with a network that answers 403,
  then accepts the refresh, and would accept every later request, \<open>get\<close> returns the
  403 response after two requests, the original one and the refresh.
\<close>

theorem refreshed_request_not_retried:
  "get (Suc d) expired_then_fine ''events/'' None connected_client world0 =
     (Inr (Some (resp 403 NotJson)),
      connected_client\<lparr>token := Some ''new'',
        session := Some \<lparr>authorization = Some ''Bearer new''\<rparr>\<rparr>,
      \<lparr>sent = 2,
       trace = [Request ''get'' ''https://example.org/api/events/'' None (Some ''Bearer old''),
              Request ''post'' ''https://example.org/api/token/refresh/''
                (Some [(''refresh'', Some ''again'')]) (Some ''Bearer old'')]\<rparr>)"
  by (simp add: get_def make_request_def make_request_with_def upt5 world0_def
      connected_client_def expired_then_fine_def resp_def session_request_def
      is_error_status_def on_http_error_def refresh_with_response_def)









section \<open>Properties of the statistics engine\<close>

subsection \<open>Ledgers and ranking\<close>

lemma sum_increment: "sum_list (map snd (increment k l)) = Suc (sum_list (map snd l))"
  by (induction l) auto

lemma keys_increment: "fst ` set (increment k l) = insert k (fst ` set l)"
  by (induction k l rule: increment.induct) auto

lemma positive_increment:
  "\<forall>e \<in> set l. 0 < snd e \<Longrightarrow> \<forall>e \<in> set (increment k l). 0 < snd e"
  by (induction k l rule: increment.induct) auto

lemma increment_new: "k \<notin> fst ` set l \<Longrightarrow> increment k l = l @ [(k, 1)]"
  by (induction l) auto

lemma increment_last: "k \<notin> fst ` set l \<Longrightarrow> increment k (l @ [(k, n)]) = l @ [(k, Suc n)]"
  by (induction l) auto

lemma mset_ranked: "mset (ranked_by_count l) = mset l"
  by (simp add: ranked_by_count_def)

lemma sum_ranked: "sum_list (map snd (ranked_by_count l)) = sum_list (map snd l)"
proof -
  have "mset (map snd (ranked_by_count l)) = mset (map snd l)"
    by (simp add: mset_ranked)
  then show ?thesis by (metis sum_mset_sum_list)
qed

lemma sorted_ranked: "sorted_wrt (\<ge>) (map snd (ranked_by_count l))"
proof -
  have "sorted (map (\<lambda>e. - int (snd e)) (ranked_by_count l))"
    unfolding ranked_by_count_def by (rule sorted_sort_key)
  then show ?thesis
    by (simp add: sorted_wrt_map)
qed

lemma stable_ranked:
  "filter (\<lambda>e. snd e = n) (ranked_by_count l) = filter (\<lambda>e. snd e = n) l"
proof -
  have "filter (\<lambda>e. - int (snd e) = - int n) (ranked_by_count l)
      = filter (\<lambda>e. - int (snd e) = - int n) l"
    unfolding ranked_by_count_def by (rule sort_key_stable)
  then show ?thesis by simp
qed

lemma descending_unique:
  assumes "mset xs = mset ys" and "sorted_wrt (\<ge>) xs" and "sorted_wrt (\<ge>) (ys :: nat list)"
  shows "xs = ys"
proof -
  have "sorted (rev xs)" "sorted (rev ys)"
    using assms(2,3) by (simp_all add: sorted_wrt_rev)
  moreover have "mset (rev xs) = mset (rev ys)" using assms(1) by simp
  ultimately have "rev xs = rev ys"
    by (metis properties_for_sort)
  then show ?thesis by simp
qed

lemma ranked_counts:
  assumes "mset (map snd l) = mset ds" and "sorted_wrt (\<ge>) ds"
  shows "map snd (ranked_by_count l) = ds"
proof (rule descending_unique)
  show "mset (map snd (ranked_by_count l)) = mset ds"
    using assms(1) by (simp add: mset_ranked)
qed (use assms(2) sorted_ranked in auto)

subsection \<open>Ingestion keeps the ledgers consistent\<close>

lemma process_files_ledgers:
  "total_commits (foldl (process_file allow) st fs) = total_commits st \<and>
   contributors (foldl (process_file allow) st fs) = contributors st \<and>
   organizations (foldl (process_file allow) st fs) = organizations st"
  by (induction fs arbitrary: st) (simp_all add: process_file_def)

lemma process_event_cases:
  "process_event allow st ev = st \<or>
   (\<exists>identity org. parse_author (Author (data ev)) = Some (identity, org) \<and>
      event_type ev = COMMIT_EVENT_TYPE \<and>
      total_commits (process_event allow st ev) = Suc (total_commits st) \<and>
      contributors (process_event allow st ev) = increment identity (contributors st) \<and>
      organizations (process_event allow st ev) = increment org (organizations st))"
  by (auto simp: process_event_def process_files_ledgers split: option.splits)

lemma consistent_process_event:
  assumes "consistent st"
  shows "consistent (process_event allow st ev)"
proof -
  from process_event_cases [of allow st ev]
  consider "process_event allow st ev = st"
    | identity org where
      "total_commits (process_event allow st ev) = Suc (total_commits st)"
      "contributors (process_event allow st ev) = increment identity (contributors st)"
      "organizations (process_event allow st ev) = increment org (organizations st)"
    by blast
  then show ?thesis
  proof cases
    case 1
    with assms show ?thesis by simp
  next
    case 2
    from assms have "\<forall>e \<in> set (contributors st). 0 < snd e"
      by (simp add: consistent_def list_all_iff)
    then have "\<forall>e \<in> set (increment identity (contributors st)). 0 < snd e"
      by (rule positive_increment)
    with 2 assms show ?thesis
      by (simp add: consistent_def sum_increment list_all_iff)
  qed
qed

lemma consistent_process_events:
  "consistent st \<Longrightarrow> consistent (process_events allow evs st)"
  unfolding process_events_def
  by (induction evs arbitrary: st) (simp_all add: consistent_process_event)

lemma consistent_init: "consistent GitEventsAnalyzer"
  by (simp add: consistent_def GitEventsAnalyzer_def)

lemma consistent_ingested: "consistent (process_events allow evs GitEventsAnalyzer)"
  by (rule consistent_process_events [OF consistent_init])

subsection \<open>The two walks down the ranking\<close>

lemma count_until_least:
  assumes "acc < target" and "target \<le> acc + sum_list cs"
  shows "target \<le> acc + sum_list (take (count_until target acc cs) cs)
       \<and> (\<forall>j < count_until target acc cs. acc + sum_list (take j cs) < target)
       \<and> 0 < count_until target acc cs \<and> count_until target acc cs \<le> length cs"
  using assms
proof (induction cs arbitrary: acc)
  case Nil
  then show ?case by simp
next
  case (Cons n ns)
  show ?case
  proof (cases "target \<le> acc + n")
    case True
    with Cons.prems show ?thesis by simp
  next
    case False
    then have lt: "acc + n < target" by simp
    from Cons.prems(2) have "target \<le> (acc + n) + sum_list ns" by simp
    from Cons.IH [OF lt this] False Cons.prems(1) show ?thesis
      by (auto simp: less_Suc_eq_0_disj add.assoc)
  qed
qed

lemma half_up_ceiling: "int (half_up n) = \<lceil>rat_of_nat n / 2\<rceil>"
  unfolding half_up_def by (simp add: ceiling_divide_eq_div) linarith

lemma tier_count_tally:
  "tier_count T (tally T' cs) = tier_count T cs + (if T = T' then 1 else 0)"
  by (cases T; cases T') simp_all

lemma upt_Suc_shift: "[0..<Suc n] = 0 # map Suc [0..<n]"
  by (simp add: upt_conv_Cons map_Suc_upt del: upt_Suc)

lemma categorize_counts:
  "tier_count T (categorize t acc c0 ns) =
     tier_count T c0 +
     length (filter (\<lambda>i. tier_of (of_nat (acc + sum_list (take (Suc i) ns)) / of_nat t) = T)
               [0..<length ns])"
proof (induction ns arbitrary: acc c0)
  case Nil
  then show ?case by simp
next
  case (Cons n ns)
  have "length (filter (\<lambda>i. tier_of (of_nat (acc + sum_list (take (Suc i) (n # ns))) / of_nat t) = T)
               [0..<length (n # ns)])
      = (if tier_of (of_nat (acc + n) / of_nat t) = T then 1 else 0)
        + length (filter (\<lambda>i. tier_of (of_nat ((acc + n) + sum_list (take (Suc i) ns)) / of_nat t) = T)
               [0..<length ns])"
    by (simp add: upt_Suc_shift filter_map comp_def add.assoc del: upt_Suc)
  then show ?case
    by (simp add: Cons.IH tier_count_tally del: upt_Suc of_nat_add)
qed

lemma categorize_total:
  "core (categorize t acc c0 ns) + regular (categorize t acc c0 ns) + casual (categorize t acc c0 ns)
     = core c0 + regular c0 + casual c0 + length ns"
proof (induction ns arbitrary: acc c0)
  case Nil
  then show ?case by simp
next
  case (Cons n ns)
  have "core (tally T c0) + regular (tally T c0) + casual (tally T c0)
      = Suc (core c0 + regular c0 + casual c0)" for T
    by (cases T) simp_all
  then show ?case by (simp add: Cons.IH)
qed

subsection \<open>Commits by a new identity\<close>

lemma ingested_no_commit:
  assumes "consistent st" and "total_commits st = 0"
  shows "contributors st = []"
  using assms by (simp add: consistent_def GitEventsAnalyzer_def)

lemma process_commit:
  assumes "parse_author a = Some (a, org)"
  shows "process_event allow st (commit a m) =
     st\<lparr>total_commits := Suc (total_commits st),
        contributors := increment a (contributors st),
        organizations := increment org (organizations st),
        message_sizes := message_sizes st @ [length m]\<rparr>"
  using assms by (simp add: process_event_def commit_def)

lemma process_commits_new:
  assumes "parse_author a = Some (a, org)" and "a \<notin> fst ` set (contributors st)"
  shows "total_commits (process_events allow (replicate (Suc n) (commit a m)) st) = total_commits st + Suc n
     \<and> contributors (process_events allow (replicate (Suc n) (commit a m)) st) = contributors st @ [(a, Suc n)]"
proof (induction n)
  case 0
  then show ?case
    using assms by (simp add: process_events_def process_commit increment_new)
next
  case (Suc n)
  have "process_events allow (replicate (Suc (Suc n)) (commit a m)) st
      = process_event allow (process_events allow (replicate (Suc n) (commit a m)) st) (commit a m)"
  proof -
    have "replicate (Suc (Suc n)) (commit a m) = replicate (Suc n) (commit a m) @ [commit a m]"
      by (metis replicate_Suc replicate_append_same)
    then show ?thesis
      unfolding process_events_def by (simp only: foldl_append) simp
  qed
  with Suc assms show ?case
    by (simp add: process_commit increment_last)
qed

lemma ranked_after_new:
  assumes "map snd (ranked_by_count l) = ds" and "mset (n # ds) = mset ds'" and "sorted_wrt (\<ge>) ds'"
  shows "map snd (ranked_by_count (l @ [(a, n)])) = ds'"
proof (rule ranked_counts)
  have "mset (map snd l) = mset ds"
    using assms(1) mset_ranked [of l] by (metis mset_map)
  then show "mset (map snd (l @ [(a, n)])) = mset ds'"
    using assms(2) by simp
qed (rule assms(3))

lemma total_of_ranked:
  assumes "consistent st"
  shows "total_commits st = sum_list (map snd (ranked_by_count (contributors st)))"
  using assms by (simp add: consistent_def sum_ranked)

text \<open>
  Claim C1. After any ingestion with at least one commit, \<open>get_pony_factor\<close> is the
  smallest \<open>k\<close> for which the \<open>k\<close> largest commit counts, ranked by descending count
  with ties in first-seen order, sum to at least half of all commits, rounded up;
  it is 0 when there is no commit. On a fixture whose three contributors have 5, 3 and
  1 of its 9 commits it is 1, and 2 after three more commits by a new identity.
\<close>

theorem pony_factor_smallest_majority:
  "let st = process_events allow evs GitEventsAnalyzer;
       ranked = map snd (ranked_by_count (contributors st));
       k = get_pony_factor st;
       author = ''Author 1 <author1@example2.com>'';
       more = process_events allow (replicate 3 (commit author ''Another commit'')) st
   in (0 < get_commit_count st \<longrightarrow>
         \<lceil>rat_of_nat (get_commit_count st) / 2\<rceil> \<le> int (sum_list (take k ranked))
       \<and> (\<forall>j<k. int (sum_list (take j ranked)) < \<lceil>rat_of_nat (get_commit_count st) / 2\<rceil>)
       \<and> k \<le> get_contributor_count st)
    \<and> sorted_wrt (\<ge>) ranked
    \<and> (\<forall>n. filter (\<lambda>e. snd e = n) (ranked_by_count (contributors st))
            = filter (\<lambda>e. snd e = n) (contributors st))
    \<and> (get_commit_count st = 0 \<longrightarrow> k = 0)
    \<and> (ranked = [5, 3, 1] \<longrightarrow>
         k = 1 \<and> (author \<notin> fst ` set (contributors st) \<longrightarrow> get_pony_factor more = 2))"
proof -
  define st where "st = process_events allow evs GitEventsAnalyzer"
  define ranked where "ranked = map snd (ranked_by_count (contributors st))"
  define author where "author = ''Author 1 <author1@example2.com>''"
  define more where "more = process_events allow (replicate 3 (commit author ''Another commit'')) st"
  have cons: "consistent st" unfolding st_def by (rule consistent_ingested)
  have tot: "total_commits st = sum_list ranked"
    unfolding ranked_def by (rule total_of_ranked [OF cons])
  have len: "length ranked = get_contributor_count st"
    by (simp add: ranked_def get_contributor_count_def distinct_count_def ranked_by_count_def)
  have A: "\<lceil>rat_of_nat (get_commit_count st) / 2\<rceil> \<le> int (sum_list (take (get_pony_factor st) ranked))
       \<and> (\<forall>j<get_pony_factor st. int (sum_list (take j ranked)) < \<lceil>rat_of_nat (get_commit_count st) / 2\<rceil>)
       \<and> get_pony_factor st \<le> get_contributor_count st"
    if pos: "0 < get_commit_count st"
  proof -
    from pos have p: "0 < total_commits st" by (simp add: get_commit_count_def)
    then have k: "get_pony_factor st = count_until (half_up (total_commits st)) 0 ranked"
      by (simp add: get_pony_factor_def diversity_factor_def ranked_def)
    have "0 < half_up (total_commits st)" "half_up (total_commits st) \<le> 0 + sum_list ranked"
      using p tot by (simp_all add: half_up_def)
    from count_until_least [OF this] show ?thesis
      unfolding k len [symmetric] get_commit_count_def half_up_ceiling [symmetric]
      by simp
  qed
  have B: "sorted_wrt (\<ge>) ranked" unfolding ranked_def by (rule sorted_ranked)
  have C: "\<forall>n. filter (\<lambda>e. snd e = n) (ranked_by_count (contributors st))
            = filter (\<lambda>e. snd e = n) (contributors st)"
    by (simp add: stable_ranked)
  have D: "get_commit_count st = 0 \<longrightarrow> get_pony_factor st = 0"
    by (simp add: get_commit_count_def get_pony_factor_def diversity_factor_def)
  have E: "get_pony_factor st = 1 \<and> (author \<notin> fst ` set (contributors st) \<longrightarrow> get_pony_factor more = 2)"
    if r: "ranked = [5, 3, 1]"
  proof
    from tot r have t: "total_commits st = 9" by simp
    show "get_pony_factor st = 1"
      using r unfolding ranked_def
      by (simp add: get_pony_factor_def diversity_factor_def t half_up_def)
    show "author \<notin> fst ` set (contributors st) \<longrightarrow> get_pony_factor more = 2"
    proof
      assume new: "author \<notin> fst ` set (contributors st)"
      have pa: "parse_author author = Some (author, ''example2.com'')"
        unfolding author_def by code_simp
      have three: "replicate 3 (commit author ''Another commit'') = replicate (Suc 2) (commit author ''Another commit'')"
        by (simp add: numeral_3_eq_3)
      from process_commits_new [OF pa new, of allow 2 "''Another commit''"]
      have m: "total_commits more = 12" "contributors more = contributors st @ [(author, 3)]"
        unfolding more_def three using t by (simp_all add: numeral_3_eq_3)
      have "map snd (ranked_by_count (contributors more)) = [5, 3, 3, 1]"
        unfolding m(2)
        by (rule ranked_after_new [OF r [unfolded ranked_def]]) simp_all
      then show "get_pony_factor more = 2"
        by (simp add: get_pony_factor_def diversity_factor_def m(1) half_up_def)
    qed
  qed
  from A B C D E show ?thesis
    unfolding Let_def st_def [symmetric] ranked_def [symmetric] author_def [symmetric] more_def [symmetric]
    by blast
qed

theorem pony_factor_smallest_majority_witness:
  "0 < get_commit_count (process_events [] fixture GitEventsAnalyzer)
   \<and> map snd (ranked_by_count (contributors (process_events [] fixture GitEventsAnalyzer))) = [5, 3, 1]
   \<and> ''Author 1 <author1@example2.com>''
        \<notin> fst ` set (contributors (process_events [] fixture GitEventsAnalyzer))
   \<and> get_pony_factor (process_events [] fixture GitEventsAnalyzer) = 1
   \<and> get_pony_factor
        (process_events []
           (replicate 3 (commit ''Author 1 <author1@example2.com>'' ''Another commit''))
           (process_events [] fixture GitEventsAnalyzer)) = 2"
proof -
  have h1: "0 < get_commit_count (process_events [] fixture GitEventsAnalyzer)"
    by code_simp
  have h2: "map snd (ranked_by_count (contributors (process_events [] fixture GitEventsAnalyzer))) = [5, 3, 1]"
    by code_simp
  have h3: "''Author 1 <author1@example2.com>''
        \<notin> fst ` set (contributors (process_events [] fixture GitEventsAnalyzer))"
    by code_simp
  from pony_factor_smallest_majority [of "[]" fixture] h1 h2 h3 show ?thesis
    unfolding Let_def by blast
qed

lemma tier_Core: "tier_of x = Core \<longleftrightarrow> x \<le> 80 / 100"
  by (simp add: tier_of_def)

lemma tier_Regular: "tier_of x = Regular \<longleftrightarrow> 80 / 100 < x \<and> x \<le> 95 / 100"
  by (auto simp: tier_of_def)

lemma tier_Casual: "tier_of x = Casual \<longleftrightarrow> 95 / 100 < x"
  by (auto simp: tier_of_def)

text \<open>
  Claim C2. After any ingestion, \<open>get_developer_categories\<close> counts as core the
  contributors, in rank order, whose cumulative share of the commits is at most 0.80,
  as regular those with a share above that and at most 0.95, and as casual the rest.
  The three counts add up to the number of contributors and are all zero when no
  commit has been processed. On a fixture whose three contributors have 5, 3 and 1 of
  its 9 commits each tier has one contributor, and after four more commits by a new
  identity there are two core contributors, one regular and one casual.
\<close>

theorem developer_categories_by_share:
  "let st = process_events allow evs GitEventsAnalyzer;
       ranked = map snd (ranked_by_count (contributors st));
       share = cumulative_share ranked (get_commit_count st);
       result = get_developer_categories st;
       author = ''Author 1 <author1@example_new.com>'';
       more = process_events allow (replicate 4 (commit author ''Another commit'')) st
   in (0 < get_commit_count st \<longrightarrow>
         core result = length (filter (\<lambda>i. share i \<le> 80 / 100) [0..<length ranked])
       \<and> regular result =
           length (filter (\<lambda>i. 80 / 100 < share i \<and> share i \<le> 95 / 100) [0..<length ranked])
       \<and> casual result = length (filter (\<lambda>i. 95 / 100 < share i) [0..<length ranked]))
    \<and> core result + regular result + casual result = get_contributor_count st
    \<and> (get_commit_count st = 0 \<longrightarrow> result = \<lparr>core = 0, regular = 0, casual = 0\<rparr>)
    \<and> (ranked = [5, 3, 1] \<longrightarrow>
         result = \<lparr>core = 1, regular = 1, casual = 1\<rparr>
       \<and> (author \<notin> fst ` set (contributors st) \<longrightarrow>
            get_developer_categories more = \<lparr>core = 2, regular = 1, casual = 1\<rparr>))"
proof -
  define st where "st = process_events allow evs GitEventsAnalyzer"
  define ranked where "ranked = map snd (ranked_by_count (contributors st))"
  define share where "share = cumulative_share ranked (get_commit_count st)"
  define result where "result = get_developer_categories st"
  define author where "author = ''Author 1 <author1@example_new.com>''"
  define more where "more = process_events allow (replicate 4 (commit author ''Another commit'')) st"
  have cons: "consistent st" unfolding st_def by (rule consistent_ingested)
  have tot: "total_commits st = sum_list ranked"
    unfolding ranked_def by (rule total_of_ranked [OF cons])
  have len: "length ranked = get_contributor_count st"
    by (simp add: ranked_def get_contributor_count_def distinct_count_def ranked_by_count_def)
  have A: "core result = length (filter (\<lambda>i. share i \<le> 80 / 100) [0..<length ranked])
       \<and> regular result =
           length (filter (\<lambda>i. 80 / 100 < share i \<and> share i \<le> 95 / 100) [0..<length ranked])
       \<and> casual result = length (filter (\<lambda>i. 95 / 100 < share i) [0..<length ranked])"
    if pos: "0 < get_commit_count st"
  proof -
    from pos have r: "result = categorize (total_commits st) 0 \<lparr>core = 0, regular = 0, casual = 0\<rparr> ranked"
      by (simp add: result_def get_developer_categories_def get_commit_count_def ranked_def)
    have cnt: "tier_count T result = length (filter (\<lambda>i. tier_of (share i) = T) [0..<length ranked])" for T
      unfolding r categorize_counts share_def cumulative_share_def get_commit_count_def
      by (cases T) simp_all
    from cnt [of Core] cnt [of Regular] cnt [of Casual] show ?thesis
      by (simp add: tier_Core tier_Regular tier_Casual)
  qed
  have B: "core result + regular result + casual result = get_contributor_count st"
  proof (cases "total_commits st = 0")
    case True
    with cons have "contributors st = []" by (rule ingested_no_commit)
    with True show ?thesis
      by (simp add: result_def get_developer_categories_def get_contributor_count_def distinct_count_def)
  next
    case False
    then show ?thesis
      unfolding len [symmetric]
      by (simp add: result_def get_developer_categories_def categorize_total ranked_def)
  qed
  have C: "get_commit_count st = 0 \<longrightarrow> result = \<lparr>core = 0, regular = 0, casual = 0\<rparr>"
    by (simp add: result_def get_developer_categories_def get_commit_count_def)
  have D: "result = \<lparr>core = 1, regular = 1, casual = 1\<rparr>
       \<and> (author \<notin> fst ` set (contributors st) \<longrightarrow>
            get_developer_categories more = \<lparr>core = 2, regular = 1, casual = 1\<rparr>)"
    if r: "ranked = [5, 3, 1]"
  proof
    from tot r have t: "total_commits st = 9" by simp
    show "result = \<lparr>core = 1, regular = 1, casual = 1\<rparr>"
      using r unfolding ranked_def result_def
      by (simp add: get_developer_categories_def t tier_of_def)
    show "author \<notin> fst ` set (contributors st) \<longrightarrow>
            get_developer_categories more = \<lparr>core = 2, regular = 1, casual = 1\<rparr>"
    proof
      assume new: "author \<notin> fst ` set (contributors st)"
      have pa: "parse_author author = Some (author, ''example_new.com'')"
        unfolding author_def by code_simp
      have four: "replicate 4 (commit author ''Another commit'') = replicate (Suc 3) (commit author ''Another commit'')"
        by (simp add: eval_nat_numeral)
      from process_commits_new [OF pa new, of allow 3 "''Another commit''"]
      have m: "total_commits more = 13" "contributors more = contributors st @ [(author, 4)]"
        unfolding more_def four using t by (simp_all add: eval_nat_numeral)
      have "map snd (ranked_by_count (contributors more)) = [5, 4, 3, 1]"
        unfolding m(2)
        by (rule ranked_after_new [OF r [unfolded ranked_def]]) simp_all
      then show "get_developer_categories more = \<lparr>core = 2, regular = 1, casual = 1\<rparr>"
        by (simp add: get_developer_categories_def m(1) tier_of_def)
    qed
  qed
  from A B C D show ?thesis
    unfolding Let_def st_def [symmetric] ranked_def [symmetric] author_def [symmetric]
      more_def [symmetric] share_def [symmetric] result_def [symmetric]
    by blast
qed

theorem developer_categories_by_share_witness:
  "0 < get_commit_count (process_events [] fixture GitEventsAnalyzer)
   \<and> map snd (ranked_by_count (contributors (process_events [] fixture GitEventsAnalyzer))) = [5, 3, 1]
   \<and> ''Author 1 <author1@example_new.com>''
        \<notin> fst ` set (contributors (process_events [] fixture GitEventsAnalyzer))
   \<and> get_developer_categories (process_events [] fixture GitEventsAnalyzer)
        = \<lparr>core = 1, regular = 1, casual = 1\<rparr>
   \<and> get_developer_categories
        (process_events []
           (replicate 4 (commit ''Author 1 <author1@example_new.com>'' ''Another commit''))
           (process_events [] fixture GitEventsAnalyzer)) = \<lparr>core = 2, regular = 1, casual = 1\<rparr>"
proof -
  have h1: "0 < get_commit_count (process_events [] fixture GitEventsAnalyzer)"
    by code_simp
  have h2: "map snd (ranked_by_count (contributors (process_events [] fixture GitEventsAnalyzer))) = [5, 3, 1]"
    by code_simp
  have h3: "''Author 1 <author1@example_new.com>''
        \<notin> fst ` set (contributors (process_events [] fixture GitEventsAnalyzer))"
    by code_simp
  from developer_categories_by_share [of "[]" fixture] h1 h2 h3 show ?thesis
    unfolding Let_def by blast
qed

text \<open>
  Claim C3. An engine without commits, such as a new one, answers every query with
  the neutral default: both factors are 0, every developer category is 0, the commit
  size totals are 0 and the file type mapping is empty.
\<close>

theorem empty_engine_neutral_defaults:
  "get_commit_count GitEventsAnalyzer = 0
   \<and> (get_commit_count st = 0 \<longrightarrow>
        get_pony_factor st = 0
      \<and> get_elephant_factor st = 0
      \<and> get_developer_categories st = \<lparr>core = 0, regular = 0, casual = 0\<rparr>
      \<and> get_commit_size_metrics st = \<lparr>size_added_lines = 0, size_removed_lines = 0\<rparr>
      \<and> get_file_type_metrics st = [])"
  by (simp add: get_commit_count_def GitEventsAnalyzer_def get_pony_factor_def
      get_elephant_factor_def diversity_factor_def get_developer_categories_def
      get_commit_size_metrics_def get_file_type_metrics_def)

theorem empty_engine_neutral_defaults_witness:
  "get_commit_count GitEventsAnalyzer = 0
   \<and> get_pony_factor GitEventsAnalyzer = 0
   \<and> get_elephant_factor GitEventsAnalyzer = 0
   \<and> get_developer_categories GitEventsAnalyzer = \<lparr>core = 0, regular = 0, casual = 0\<rparr>
   \<and> get_commit_size_metrics GitEventsAnalyzer = \<lparr>size_added_lines = 0, size_removed_lines = 0\<rparr>
   \<and> get_file_type_metrics GitEventsAnalyzer = []"
  using empty_engine_neutral_defaults [of GitEventsAnalyzer] by blast

text \<open>
  Claim C4. For a positive window \<open>get_average_commits_week\<close> returns the commit
  count divided by the days of the window and by 7, which is 9 / 30 / 7 for nine
  commits and thirty days; for a window of zero days it raises the division error.
\<close>

theorem average_commits_week_quotient:
  "(0 < days_interval \<longrightarrow>
      get_average_commits_week st days_interval
        = Inr (rat_of_nat (get_commit_count st) / rat_of_int days_interval / 7))
   \<and> get_average_commits_week st 0 = Inl ZeroDivisionError
   \<and> (get_commit_count st = 9 \<longrightarrow> get_average_commits_week st 30 = Inr (9 / 30 / 7))"
  by (simp add: get_average_commits_week_def get_commit_count_def)

theorem average_commits_week_quotient_witness:
  "(0::int) < 30
   \<and> get_commit_count (process_events [] fixture GitEventsAnalyzer) = 9
   \<and> get_average_commits_week (process_events [] fixture GitEventsAnalyzer) 30 = Inr (9 / 30 / 7)
   \<and> get_average_commits_week (process_events [] fixture GitEventsAnalyzer) 0 = Inl ZeroDivisionError"
proof -
  have h: "get_commit_count (process_events [] fixture GitEventsAnalyzer) = 9"
    by code_simp
  from average_commits_week_quotient [of 30 "process_events [] fixture GitEventsAnalyzer"] h show ?thesis
    by simp
qed

subsection \<open>The counts of the fixture\<close>

text \<open>
  A state with nine commits by three contributors in which the pony factor is 1, each
  developer category has one contributor, and the pony factor is 2 after three commits
  by a new identity, has the ranked counts 5, 3 and 1.
\<close>

lemma fixture_counts_forced:
  assumes cons: "consistent st"
    and nine: "get_commit_count st = 9"
    and three: "get_contributor_count st = 3"
    and pony: "get_pony_factor st = 1"
    and cats: "get_developer_categories st = \<lparr>core = 1, regular = 1, casual = 1\<rparr>"
    and new: "author \<notin> fst ` set (contributors st)"
    and pa: "parse_author author = Some (author, org)"
    and pony': "get_pony_factor (process_events allow (replicate 3 (commit author m)) st) = 2"
  shows "map snd (ranked_by_count (contributors st)) = [5, 3, 1]"
proof -
  define ranked where "ranked = map snd (ranked_by_count (contributors st))"
  have t: "total_commits st = 9" using nine by (simp add: get_commit_count_def)
  have "length ranked = 3"
    using three by (simp add: ranked_def get_contributor_count_def distinct_count_def ranked_by_count_def)
  then obtain a b c where abc: "ranked = [a, b, c]"
    by (auto simp: length_Suc_conv numeral_3_eq_3)
  have sum: "a + b + c = 9"
    using total_of_ranked [OF cons] t abc by (simp add: ranked_def)
  have ord: "b \<le> a" "c \<le> b"
    using sorted_ranked [of "contributors st"] abc by (simp_all add: ranked_def)
  have "\<forall>n \<in> set ranked. 0 < n"
    using cons by (auto simp: ranked_def consistent_def list_all_iff ranked_by_count_def)
  then have pos: "0 < c" using abc by simp
  have five: "5 \<le> a"
    using pony abc t by (auto simp: get_pony_factor_def diversity_factor_def ranked_def [symmetric] half_up_def split: if_splits)
  from sum ord pos five consider
    "a = 7 \<and> b = 1 \<and> c = 1" | "a = 6 \<and> b = 2 \<and> c = 1" | "a = 5 \<and> b = 3 \<and> c = 1" | "a = 5 \<and> b = 2 \<and> c = 2"
    by arith
  then have "a = 5 \<and> b = 3 \<and> c = 1"
  proof cases
    case 1
    have r3: "replicate 3 (commit author m) = replicate (Suc 2) (commit author m)"
      by (simp add: numeral_3_eq_3)
    from process_commits_new [OF pa new, of allow 2 m]
    have more: "total_commits (process_events allow (replicate 3 (commit author m)) st) = 12"
      "contributors (process_events allow (replicate 3 (commit author m)) st) = contributors st @ [(author, 3)]"
      unfolding r3 using t by (simp_all add: numeral_3_eq_3)
    have "map snd (ranked_by_count (contributors st @ [(author, 3)])) = [7, 3, 1, 1]"
      by (rule ranked_after_new [OF abc [unfolded ranked_def]]) (simp_all add: 1)
    with pony' more show ?thesis
      by (simp add: get_pony_factor_def diversity_factor_def half_up_def)
  next
    case 2
    have r3: "replicate 3 (commit author m) = replicate (Suc 2) (commit author m)"
      by (simp add: numeral_3_eq_3)
    from process_commits_new [OF pa new, of allow 2 m]
    have more: "total_commits (process_events allow (replicate 3 (commit author m)) st) = 12"
      "contributors (process_events allow (replicate 3 (commit author m)) st) = contributors st @ [(author, 3)]"
      unfolding r3 using t by (simp_all add: numeral_3_eq_3)
    have "map snd (ranked_by_count (contributors st @ [(author, 3)])) = [6, 3, 2, 1]"
      by (rule ranked_after_new [OF abc [unfolded ranked_def]]) (simp_all add: 2)
    with pony' more show ?thesis
      by (simp add: get_pony_factor_def diversity_factor_def half_up_def)
  next
    case 3
    then show ?thesis .
  next
    case 4
    with cats abc t show ?thesis
      by (simp add: get_developer_categories_def ranked_def [symmetric] tier_of_def)
  qed
  with abc show ?thesis by (simp add: ranked_def)
qed

end
